theory Spec2Isabelle
  imports Complex_Main "HOL-Library.Multiset" "HOL-Library.Char_ord" "HOL-Library.List_Lexorder"
begin

section \<open>Strings and character classes\<close>

text \<open>
  A Python \<open>str\<close> is modelled as a \<^typ>\<open>string\<close>: a list of characters with code points
  U+0000 to U+00FF, one \<^typ>\<open>char\<close> per code point. The classes below are the ones of
  Python's \<open>re\<close> module and of \<open>str\<close> on these code points.
\<close>

definition code :: "char \<Rightarrow> nat" where
  "code c = of_char c"

text \<open>\<open>\s\<close> and \<open>str.isspace\<close>: TAB to CR, FS to US, space, NEL and NBSP.\<close>

definition isspace :: "char \<Rightarrow> bool" where
  "isspace c = ((9 \<le> code c \<and> code c \<le> 13) \<or> (28 \<le> code c \<and> code c \<le> 32)
     \<or> code c = 133 \<or> code c = 160)"

definition isupper_ascii :: "char \<Rightarrow> bool" where
  "isupper_ascii c = (65 \<le> code c \<and> code c \<le> 90)"

definition islower_ascii :: "char \<Rightarrow> bool" where
  "islower_ascii c = (97 \<le> code c \<and> code c \<le> 122)"

text \<open>\<open>\d\<close>: the decimal digits; below U+0100 these are \<open>0\<close> to \<open>9\<close>.\<close>

definition isdigit :: "char \<Rightarrow> bool" where
  "isdigit c = (48 \<le> code c \<and> code c \<le> 57)"

text \<open>
  \<open>\w\<close>: alphanumeric characters and the underscore. Below U+0100 the alphanumerics
  outside ASCII are U+00AA, U+00B2, U+00B3, U+00B5, U+00B9, U+00BA, U+00BC to U+00BE and
  the letters U+00C0 to U+00FF without the two operators U+00D7 and U+00F7.
\<close>

definition isword :: "char \<Rightarrow> bool" where
  "isword c = (isdigit c \<or> isupper_ascii c \<or> islower_ascii c \<or> code c = 95
     \<or> code c = 170 \<or> code c = 178 \<or> code c = 179 \<or> code c = 181 \<or> code c = 185
     \<or> code c = 186 \<or> (188 \<le> code c \<and> code c \<le> 190)
     \<or> (192 \<le> code c \<and> code c \<le> 214) \<or> (216 \<le> code c \<and> code c \<le> 246)
     \<or> 248 \<le> code c)"

text \<open>\<open>str.lower\<close>, character by character: \<open>A\<close> to \<open>Z\<close> and U+00C0 to U+00DE
  (without U+00D7) move up by 32.\<close>

definition lower_char :: "char \<Rightarrow> char" where
  "lower_char c = (if isupper_ascii c \<or> (192 \<le> code c \<and> code c \<le> 222 \<and> code c \<noteq> 215)
     then char_of (code c + 32) else c)"

definition lower :: "string \<Rightarrow> string" where
  "lower s = map lower_char s"

text \<open>\<open>str.strip()\<close> without argument removes leading and trailing whitespace.\<close>

definition strip :: "string \<Rightarrow> string" where
  "strip s = rev (dropWhile isspace (rev (dropWhile isspace s)))"

section \<open>Regular expressions of the \<open>re\<close> module\<close>

text \<open>
  The patterns of the program use character classes, literals, concatenation, alternation,
  greedy repetition of a class and the word boundary \<open>\b\<close>. A matcher state is the
  character before the current position (for \<open>\b\<close>) and the rest of the subject. The
  matcher returns the states after every way of matching at the current position, in the
  order in which the backtracking engine tries them: left alternative first, longest
  repetition first. The head of that list is the match the engine reports.
\<close>

datatype 'c rx =
    Cls "'c \<Rightarrow> bool"
  | Seq "'c rx" "'c rx"
  | Alt "'c rx" "'c rx"
  | Star "'c \<Rightarrow> bool"
  | Bnd "'c \<Rightarrow> bool"

type_synonym 'c mstate = "'c option \<times> 'c list"

definition at_boundary :: "('c \<Rightarrow> bool) \<Rightarrow> 'c mstate \<Rightarrow> bool" where
  "at_boundary W st = ((case fst st of None \<Rightarrow> False | Some c \<Rightarrow> W c)
      \<noteq> (case snd st of [] \<Rightarrow> False | c # _ \<Rightarrow> W c))"

fun star_match :: "('c \<Rightarrow> bool) \<Rightarrow> 'c option \<Rightarrow> 'c list \<Rightarrow> 'c mstate list" where
  "star_match P p [] = [(p, [])]"
| "star_match P p (c # t) = (if P c then star_match P (Some c) t @ [(p, c # t)] else [(p, c # t)])"

fun rx_match :: "'c rx \<Rightarrow> 'c mstate \<Rightarrow> 'c mstate list" where
  "rx_match (Cls P) st = (case snd st of [] \<Rightarrow> [] | c # t \<Rightarrow> if P c then [(Some c, t)] else [])"
| "rx_match (Seq a b) st = concat (map (rx_match b) (rx_match a st))"
| "rx_match (Alt a b) st = rx_match a st @ rx_match b st"
| "rx_match (Star P) st = star_match P (fst st) (snd st)"
| "rx_match (Bnd W) st = (if at_boundary W st then [st] else [])"

text \<open>A literal, read with a relation \<open>eq\<close> between a character of the pattern and one
  of the subject (equality up to case under \<open>(?i)\<close>).\<close>

fun lit :: "('c \<Rightarrow> 'c \<Rightarrow> bool) \<Rightarrow> 'c list \<Rightarrow> 'c rx" where
  "lit eq [] = Star (\<lambda>c. False)"
| "lit eq [a] = Cls (eq a)"
| "lit eq (a # as) = Seq (Cls (eq a)) (lit eq as)"

fun alts :: "'c rx list \<Rightarrow> 'c rx" where
  "alts [] = Cls (\<lambda>c. False)"
| "alts [r] = r"
| "alts (r # rs) = Alt r (alts rs)"

definition plus :: "('c \<Rightarrow> bool) \<Rightarrow> 'c rx" where
  "plus P = Seq (Cls P) (Star P)"

text \<open>
  \<open>re.finditer\<close> and \<open>re.findall\<close> (for a pattern without group, as \<open>findall\<close> is only
  used here): scan from the left; where the pattern matches, report the matched text
  and go on after it, otherwise move one character on. None of the patterns of the
  program matches the empty string; an empty match is reported and the scan moves one
  character on.
\<close>

function finditer :: "'c rx \<Rightarrow> 'c option \<Rightarrow> 'c list \<Rightarrow> 'c list list" where
  "finditer r p [] = (case rx_match r (p, []) of [] \<Rightarrow> [] | _ # _ \<Rightarrow> [[]])"
| "finditer r p (c # t) =
     (case rx_match r (p, c # t) of
        [] \<Rightarrow> finditer r (Some c) t
      | (q, rest) # _ \<Rightarrow>
          if length rest \<le> length t
          then take (Suc (length t) - length rest) (c # t) # finditer r q rest
          else [] # finditer r (Some c) t)"
  by pat_completeness auto
termination
  by (relation "measure (\<lambda>(r, p, s). length s)") auto

text \<open>\<open>re.sub\<close> with a constant replacement: every match of \<open>finditer\<close> is replaced.\<close>

function sub :: "'c rx \<Rightarrow> 'c list \<Rightarrow> 'c option \<Rightarrow> 'c list \<Rightarrow> 'c list" where
  "sub r repl p [] = (case rx_match r (p, []) of [] \<Rightarrow> [] | _ # _ \<Rightarrow> repl)"
| "sub r repl p (c # t) =
     (case rx_match r (p, c # t) of
        [] \<Rightarrow> c # sub r repl (Some c) t
      | (q, rest) # _ \<Rightarrow>
          if length rest \<le> length t
          then repl @ sub r repl q rest
          else repl @ c # sub r repl (Some c) t)"
  by pat_completeness auto
termination
  by (relation "measure (\<lambda>(r, repl, p, s). length s)") auto

text \<open>
  Notions for stating what a scan returns. A pattern without \<open>\b\<close> matches the same
  whatever stands before. \<open>fullmatch\<close> is \<open>re.fullmatch\<close>: the pattern matches the whole
  text. \<open>first_match\<close> is \<open>re.match\<close>: the text that the pattern matches at the start of
  the subject, if any.
\<close>

fun bnd_free :: "'c rx \<Rightarrow> bool" where
  "bnd_free (Cls P) = True"
| "bnd_free (Seq a b) = (bnd_free a \<and> bnd_free b)"
| "bnd_free (Alt a b) = (bnd_free a \<and> bnd_free b)"
| "bnd_free (Star P) = True"
| "bnd_free (Bnd W) = False"

definition fullmatch :: "'c rx \<Rightarrow> 'c list \<Rightarrow> bool" where
  "fullmatch r s = list_ex (\<lambda>st. snd st = []) (rx_match r (None, s))"

definition first_match :: "'c rx \<Rightarrow> 'c list \<Rightarrow> 'c list option" where
  "first_match r s =
     (case rx_match r (None, s) of
        [] \<Rightarrow> None
      | (q, rest) # _ \<Rightarrow> Some (take (length s - length rest) s))"

text \<open>
  The leftmost non-overlapping matches of a pattern in a text, stated without the scan:
  the text is cut into gaps and spans, \<open>weave gaps spans\<close>, a gap before each span and one
  after the last. \<open>unmatched r g rest\<close>: the pattern matches at no position of the gap
  \<open>g\<close>, which \<open>rest\<close> follows. \<open>scanned r gaps spans\<close>: every gap is unmatched, and every
  span is what the pattern matches at the position where the span starts.
\<close>

fun weave :: "'c list list \<Rightarrow> 'c list list \<Rightarrow> 'c list" where
  "weave (g # gs) (m # ms) = g @ m @ weave gs ms"
| "weave gs [] = concat gs"
| "weave [] ms = concat ms"

fun unmatched :: "'c rx \<Rightarrow> 'c list \<Rightarrow> 'c list \<Rightarrow> bool" where
  "unmatched r [] rest = True"
| "unmatched r (c # g) rest = (first_match r (c # g @ rest) = None \<and> unmatched r g rest)"

fun scanned :: "'c rx \<Rightarrow> 'c list list \<Rightarrow> 'c list list \<Rightarrow> bool" where
  "scanned r [g] [] = (unmatched r g [] \<and> first_match r [] = None)"
| "scanned r (g # gs) (m # ms) =
     (unmatched r g (m @ weave gs ms) \<and> first_match r (m @ weave gs ms) = Some m
      \<and> scanned r gs ms)"
| "scanned r gs ms = False"

section \<open>The text normalizer\<close>

text \<open>
  \<^verbatim>\<open>
  def _clean_text(self, text):
      text = re.sub('\s+', ' ', text)
      text = re.sub('[^a-zA-Z0-9\s\.\-,]', '', text)
      return text.strip()
  \<close>
\<close>

definition kept :: "char \<Rightarrow> bool" where
  "kept c = (islower_ascii c \<or> isupper_ascii c \<or> isdigit c \<or> isspace c
     \<or> c = CHR ''.'' \<or> c = CHR ''-'' \<or> c = CHR '','')"

definition clean_text :: "string \<Rightarrow> string" where
  "clean_text text =
     (let text = sub (plus isspace) '' '' None text;
          text = sub (Cls (\<lambda>c. \<not> kept c)) [] None text
      in strip text)"

text \<open>
  Two predicates on a normalized text: its alphabet (ASCII letters, digits, space,
  period, hyphen, comma), and the presence of two consecutive spaces.
\<close>

definition allowed :: "char \<Rightarrow> bool" where
  "allowed c = (islower_ascii c \<or> isupper_ascii c \<or> isdigit c
     \<or> c = CHR '' '' \<or> c = CHR ''.'' \<or> c = CHR ''-'' \<or> c = CHR '','')"

fun has_double_space :: "string \<Rightarrow> bool" where
  "has_double_space (a # b # t) = ((a = CHR '' '' \<and> b = CHR '' '') \<or> has_double_space (b # t))"
| "has_double_space [a] = False"
| "has_double_space [] = False"

section \<open>The experience span extractor\<close>

text \<open>
  \<^verbatim>\<open>
  def _extract_experience(self, text):
      pattern = r'(?i)((?:Jan|Feb|Mar|Apr|May|Jun|Jul|Aug|Sep|Oct|Nov|Dec)[a-z\s\-,]*\d{4})
                 [\s<U+2013>\-]+(present|(?:Jan|Feb|...|Dec)[a-z\s\-,]*\d{4})'
      return [match.group().strip() for match in re.finditer(pattern, text)]
  \<close>
  The pattern is one line in the source, with the en dash itself where \<open><U+2013>\<close> stands.
  The en dash is a character above U+00FF, so the subject of this pattern is modelled as
  a list of code points (natural numbers) of any size; \<open>encode\<close> gives the code points of
  a string of the model, \<open>decode\<close> goes back.
\<close>

definition encode :: "string \<Rightarrow> nat list" where
  "encode s = map code s"

definition decode :: "nat list \<Rightarrow> string" where
  "decode u = map char_of u"

text \<open>\<open>\s\<close> and \<open>str.isspace\<close> on all code points: beyond the ones below U+0100 these are
  U+1680, U+2000 to U+200A, U+2028, U+2029, U+202F, U+205F and U+3000.\<close>

definition uspace :: "nat \<Rightarrow> bool" where
  "uspace c = ((9 \<le> c \<and> c \<le> 13) \<or> (28 \<le> c \<and> c \<le> 32) \<or> c = 133 \<or> c = 160
     \<or> c = 5760 \<or> (8192 \<le> c \<and> c \<le> 8202) \<or> c = 8232 \<or> c = 8233 \<or> c = 8239
     \<or> c = 8287 \<or> c = 12288)"

definition ustrip :: "nat list \<Rightarrow> nat list" where
  "ustrip s = rev (dropWhile uspace (rev (dropWhile uspace s)))"

text \<open>
  Under \<open>(?i)\<close> a letter of the pattern matches its two cases and, for \<open>s\<close>, \<open>k\<close> and
  \<open>i\<close>, the code points U+017F, U+212A, and U+0130 and U+0131; the class \<open>[a-z]\<close> matches
  the 52 letters and these four code points.
\<close>

definition ascii_lower :: "nat \<Rightarrow> nat" where
  "ascii_lower c = (if 65 \<le> c \<and> c \<le> 90 then c + 32 else c)"

definition ci :: "nat \<Rightarrow> nat \<Rightarrow> bool" where
  "ci a c = (ascii_lower c = ascii_lower a
     \<or> (ascii_lower a = 115 \<and> c = 383)
     \<or> (ascii_lower a = 107 \<and> c = 8490)
     \<or> (ascii_lower a = 105 \<and> (c = 304 \<or> c = 305)))"

definition letter_ci :: "nat \<Rightarrow> bool" where
  "letter_ci c = ((97 \<le> ascii_lower c \<and> ascii_lower c \<le> 122)
     \<or> c = 304 \<or> c = 305 \<or> c = 383 \<or> c = 8490)"

text \<open>
  \<open>\d\<close>: the decimal digits. Below U+0100 these are \<open>0\<close> to \<open>9\<close>; which code points
  above are decimal digits depends on the Unicode database of the interpreter, the
  parameter \<open>nd\<close>. No decimal digit is a whitespace character.
\<close>

definition digit :: "(nat \<Rightarrow> bool) \<Rightarrow> nat \<Rightarrow> bool" where
  "digit nd c = ((48 \<le> c \<and> c \<le> 57) \<or> (256 \<le> c \<and> nd c \<and> \<not> uspace c))"

definition months :: "string list" where
  "months = [''Jan'', ''Feb'', ''Mar'', ''Apr'', ''May'', ''Jun'',
             ''Jul'', ''Aug'', ''Sep'', ''Oct'', ''Nov'', ''Dec'']"

text \<open>\<open>[a-z\s\-,]\<close> under \<open>(?i)\<close>, and \<open>[\s<U+2013>\-]\<close>.\<close>

definition filler :: "nat \<Rightarrow> bool" where
  "filler c = (letter_ci c \<or> uspace c \<or> c = 45 \<or> c = 44)"

definition separator :: "nat \<Rightarrow> bool" where
  "separator c = (uspace c \<or> c = 8211 \<or> c = 45)"

definition month_year :: "(nat \<Rightarrow> bool) \<Rightarrow> nat rx" where
  "month_year nd =
     Seq (alts (map (\<lambda>m. lit ci (encode m)) months))
       (Seq (Star filler)
         (Seq (Cls (digit nd)) (Seq (Cls (digit nd)) (Seq (Cls (digit nd)) (Cls (digit nd))))))"

definition experience_rx :: "(nat \<Rightarrow> bool) \<Rightarrow> nat rx" where
  "experience_rx nd =
     Seq (month_year nd)
       (Seq (plus separator) (Alt (lit ci (encode ''present'')) (month_year nd)))"

definition extract_experience :: "(nat \<Rightarrow> bool) \<Rightarrow> nat list \<Rightarrow> nat list list" where
  "extract_experience nd text = map ustrip (finditer (experience_rx nd) None text)"

text \<open>
  A month token at the start of a text, and somewhere in a text: one of the twelve names
  as the pattern reads them under \<open>(?i)\<close>.
\<close>

definition starts_with_ci :: "nat list \<Rightarrow> nat list \<Rightarrow> bool" where
  "starts_with_ci m s = (length m \<le> length s \<and> list_all2 ci m (take (length m) s))"

definition month_token_at :: "nat list \<Rightarrow> bool" where
  "month_token_at s = list_ex (\<lambda>m. starts_with_ci (encode m) s) months"

fun has_month_token :: "nat list \<Rightarrow> bool" where
  "has_month_token [] = False"
| "has_month_token (c # t) = (month_token_at (c # t) \<or> has_month_token t)"

section \<open>Resume records and the parser object\<close>

text \<open>
  \<open>parse_resume\<close> returns a dict with the keys \<open>skills\<close>, \<open>education\<close>, \<open>experience\<close> and
  \<open>raw_text\<close>; \<open>main\<close> adds \<open>name\<close>.
\<close>

record resume =
  skills :: "string list"
  education :: "string list"
  experience :: "string list"
  raw_text :: string
  name :: "string option"

text \<open>
  An entity of \<open>doc.ents\<close> with its \<open>text\<close> and its \<open>label_\<close> (here \<open>ent_label\<close>). The pipeline \<open>self.nlp\<close> is the
  spaCy model \<open>en_core_web_sm\<close> with the entity ruler added before its \<open>ner\<close> component;
  it is a field of the parser object and is modelled by the entities it returns for a text.
\<close>

record entity =
  ent_text :: string
  ent_label :: string

record ResumeParser =
  nlp :: "string \<Rightarrow> entity list"

text \<open>
  The table that \<open>_add_custom_patterns\<close> registers with the entity ruler, in its order:
  label and phrase. The ruler itself (its tokenizer, its matcher and the way it settles
  overlapping matches) is part of the pipeline.
\<close>

definition patterns :: "(string \<times> string) list" where
  "patterns =
     [(''DEGREE'', ''BS''), (''DEGREE'', ''B.Sc''), (''DEGREE'', ''Bachelors''),
      (''DEGREE'', ''Masters''), (''DEGREE'', ''PhD''),
      (''SKILL'', ''Python''), (''SKILL'', ''Machine Learning''), (''SKILL'', ''SQL'')]"

text \<open>
  \<^verbatim>\<open>
  def extract_text(self, pdf_path):
      with pdfplumber.open(pdf_path) as pdf:
          return '\n'.join([page.extract_text() for page in pdf.pages])
  \<close>
  The texts of the pages come from \<open>pdfplumber\<close>; the model takes them as input.
\<close>

fun join :: "string \<Rightarrow> string list \<Rightarrow> string" where
  "join sep [] = []"
| "join sep [x] = x"
| "join sep (x # xs) = x @ sep @ join sep xs"

definition extract_text :: "string list \<Rightarrow> string" where
  "extract_text pages = join [CHR 0x0A] pages"

text \<open>
  \<open>list(set(xs))\<close> lists every element of \<open>xs\<close> once, in the iteration order of the set,
  which the language leaves open. The order is a parameter \<open>list_set\<close> of the model, and
  \<open>set_iteration\<close> says what every such order satisfies. The other parameter of
  \<open>parse_resume\<close>, \<open>nd\<close>, is the extractor's table of decimal digits above U+00FF.
\<close>

definition set_iteration :: "(string list \<Rightarrow> string list) \<Rightarrow> bool" where
  "set_iteration list_set = (\<forall>xs. distinct (list_set xs) \<and> set (list_set xs) = set xs)"

text \<open>
  \<^verbatim>\<open>
  def parse_resume(self, pdf_path):
      text = self.extract_text(pdf_path)
      text = self._clean_text(text)
      doc = self.nlp(text)
      return {
          'skills': list(set([ent.text for ent in doc.ents if ent.label_ == "SKILL"])),
          'education': list(set([ent.text for ent in doc.ents if ent.label_ == "DEGREE"])),
          'experience': self._extract_experience(text),
          'raw_text': text
      }
  \<close>
\<close>

definition parse_resume ::
  "(string list \<Rightarrow> string list) \<Rightarrow> (nat \<Rightarrow> bool) \<Rightarrow> ResumeParser \<Rightarrow> string list \<Rightarrow> resume" where
  "parse_resume list_set nd self pages =
     (let text = extract_text pages;
          text = clean_text text;
          ents = nlp self text
      in \<lparr>skills = list_set [ent_text ent. ent \<leftarrow> ents, ent_label ent = ''SKILL''],
          education = list_set [ent_text ent. ent \<leftarrow> ents, ent_label ent = ''DEGREE''],
          experience = map decode (extract_experience nd (encode text)),
          raw_text = text,
          name = None\<rparr>)"

section \<open>The similarity ranker\<close>

datatype error = ValueError string

text \<open>
  \<open>TfidfVectorizer()\<close> with its defaults: the analyzer lowercases the document and takes
  the matches of the token pattern \<open>(?u)\b\w\w+\b\<close>; there are no stop words.
\<close>

definition token_rx :: "char rx" where
  "token_rx = Seq (Bnd isword) (Seq (Cls isword) (Seq (plus isword) (Bnd isword)))"

definition build_analyzer :: "string \<Rightarrow> string list" where
  "build_analyzer doc = finditer token_rx None (lower doc)"

text \<open>The fitted vectorizer: its \<open>vocabulary_\<close>, the terms in sorted order, a term's index
  being its position.\<close>

record vectorizer =
  vocabulary :: "string list"

text \<open>
  \<open>fit_transform([job_description])\<close>: the vocabulary of the one document, and the row of
  its term counts. An empty vocabulary raises \<open>ValueError\<close>.
\<close>

definition fit_transform :: "string \<Rightarrow> error + (vectorizer \<times> nat list)" where
  "fit_transform doc =
     (let tokens = build_analyzer doc;
          terms = sort (remdups tokens)
      in if terms = []
         then Inl (ValueError ''empty vocabulary; perhaps the documents only contain stop words'')
         else Inr (\<lparr>vocabulary = terms\<rparr>, map (count_list tokens) terms))"

text \<open>\<open>transform([doc])\<close>: the counts of the vocabulary's terms in the document.\<close>

definition transform :: "vectorizer \<Rightarrow> string \<Rightarrow> nat list" where
  "transform v doc = map (count_list (build_analyzer doc)) (vocabulary v)"

text \<open>
  From the two rows of counts the library computes the score in float64: the tf-idf
  weights (every idf is \<open>ln ((1 + 1) / (1 + 1)) + 1\<close>, the vectorizer being fitted on one
  document), their L2 normalisation and \<open>cosine_similarity\<close>. The ranker takes that
  computation as a parameter: a function from the two rows to the score, a finite float64
  and so a real number. \<open>cosine_exact\<close> is the computation in exact arithmetic,
  \<open>cosine_similarity_f64\<close> below the one in float64.
\<close>

type_synonym kernel = "nat list \<Rightarrow> nat list \<Rightarrow> real"

definition dot :: "nat list \<Rightarrow> nat list \<Rightarrow> nat" where
  "dot u v = sum_list (map2 (*) u v)"

definition cosine_exact :: kernel where
  "cosine_exact u v =
     (if dot u u = 0 \<or> dot v v = 0 then 0
      else real (dot u v) / (sqrt (real (dot u u)) * sqrt (real (dot v v))))"

subsection \<open>The kernel in float64\<close>

text \<open>
  A float64 that is not negative is modelled by its significand and exponent: the pair
  \<open>(m, e)\<close> is the number \<open>m * 2 ^ e\<close>, with \<open>m = 0\<close> or \<open>2 ^ 52 \<le> m < 2 ^ 53\<close>. Every
  operation rounds the exact result to the nearest such number, ties to the even
  significand, as IEEE 754 arithmetic does (without fused multiply-add). The exponent is
  not bounded: overflow and underflow, which term counts do not reach, are not modelled.
\<close>

type_synonym float64 = "int \<times> int"

definition valof :: "float64 \<Rightarrow> real" where
  "valof f = (if 0 \<le> snd f then real_of_int (fst f * 2 ^ nat (snd f))
              else real_of_int (fst f) / 2 ^ nat (- snd f))"

function bitlength :: "int \<Rightarrow> int" where
  "bitlength n = (if n \<le> 0 then 0 else 1 + bitlength (n div 2))"
  by pat_completeness auto
termination
  by (relation "measure nat") auto

text \<open>\<open>round_ratio p q e\<close>: the float64 nearest to \<open>p / q * 2 ^ e\<close>, for \<open>0 \<le> p\<close> and
  \<open>0 < q\<close>.\<close>

definition round_ratio :: "int \<Rightarrow> int \<Rightarrow> int \<Rightarrow> float64" where
  "round_ratio p q e =
     (if p \<le> 0 then (0, 0)
      else
        let k = 53 - (bitlength p - bitlength q);
            num = (if 0 \<le> k then p * 2 ^ nat k else p);
            den = (if 0 \<le> k then q else q * 2 ^ nat (- k));
            wide = (den * 2 ^ 53 \<le> num);
            den = (if wide then 2 * den else den);
            k = (if wide then k - 1 else k);
            m = num div den;
            r = num mod den;
            m = (if den < 2 * r \<or> (2 * r = den \<and> odd m) then m + 1 else m)
        in if m = 2 ^ 53 then (2 ^ 52, e - k + 1) else (m, e - k))"

definition fzero :: float64 where
  "fzero = (0, 0)"

definition fone :: float64 where
  "fone = (2 ^ 52, - 52)"

definition of_count :: "nat \<Rightarrow> float64" where
  "of_count n = round_ratio (int n) 1 0"

definition fmul :: "float64 \<Rightarrow> float64 \<Rightarrow> float64" where
  "fmul x y = round_ratio (fst x * fst y) 1 (snd x + snd y)"

definition fadd :: "float64 \<Rightarrow> float64 \<Rightarrow> float64" where
  "fadd x y =
     (let e = min (snd x) (snd y)
      in round_ratio (fst x * 2 ^ nat (snd x - e) + fst y * 2 ^ nat (snd y - e)) 1 e)"

definition fdiv :: "float64 \<Rightarrow> float64 \<Rightarrow> float64" where
  "fdiv x y = round_ratio (fst x) (fst y) (snd x - snd y)"

text \<open>The integer square root, bit by bit from bit \<open>k\<close> down.\<close>

primrec isqrt_from :: "nat \<Rightarrow> int \<Rightarrow> int \<Rightarrow> int" where
  "isqrt_from 0 n a = (if (a + 1) * (a + 1) \<le> n then a + 1 else a)"
| "isqrt_from (Suc k) n a =
     isqrt_from k n (if (a + 2 ^ Suc k) * (a + 2 ^ Suc k) \<le> n then a + 2 ^ Suc k else a)"

definition isqrt :: "int \<Rightarrow> int" where
  "isqrt n = isqrt_from (nat (bitlength n)) n 0"

text \<open>
  The square root: the significand is scaled to an integer \<open>n\<close> of more than 110 bits
  with an even exponent and its integer root \<open>r\<close> is taken; \<open>r\<close>, or \<open>r + 1 / 2\<close> when the
  root is not exact, rounds as the root itself does.
\<close>

definition fsqrt :: "float64 \<Rightarrow> float64" where
  "fsqrt x =
     (if fst x \<le> 0 then (0, 0)
      else
        let j = 58 + (snd x - 58) mod 2;
            n = fst x * 2 ^ nat j;
            r = isqrt n
        in round_ratio (2 * r + (if r * r = n then 0 else 1)) 2 ((snd x - j) div 2))"

text \<open>The significands of the model: zero, or 53 bits with the leading bit set.\<close>

definition normal :: "float64 \<Rightarrow> bool" where
  "normal f = (fst f = 0 \<or> (2 ^ 52 \<le> fst f \<and> fst f < 2 ^ 53))"

text \<open>A rounding to nearest changes a value, up or down, by less than the factor \<open>rnd\<close>.\<close>

definition rnd :: real where
  "rnd = 1 + 1 / 2 ^ 52"

text \<open>
  \<open>TfidfTransformer\<close>: the counts become float64, are multiplied by the idf, which is
  \<open>ln ((1 + 1) / (1 + 1)) + 1 = 1.0\<close> for every term, and the row is normalised:
  \<^verbatim>\<open>
      sum_ = 0.0
      for j in range(X_indptr[i], X_indptr[i + 1]):
          sum_ += (X_data[j] * X_data[j])
      if sum_ == 0.0:
          continue
      sum_ = sqrt(sum_)
      for j in range(X_indptr[i], X_indptr[i + 1]):
          X_data[j] /= sum_
  \<close>
  The matrices are sparse: the loops run over the entries that are not zero, in the order
  of the vocabulary. A zero entry adds an exact zero, so the rows are modelled in full.
\<close>

definition tfidf_row :: "nat list \<Rightarrow> float64 list" where
  "tfidf_row counts = map (\<lambda>n. fmul (of_count n) fone) counts"

definition l2_normalize :: "float64 list \<Rightarrow> float64 list" where
  "l2_normalize x =
     (let sum = foldl (\<lambda>acc v. fadd acc (fmul v v)) fzero x
      in if fst sum = 0 then x else map (\<lambda>v. fdiv v (fsqrt sum)) x)"

text \<open>
  \<open>cosine_similarity(job_vec, resume_vec)[0][0]\<close>: both rows, already normalised by the
  vectorizer, are normalised again, and their product is summed entry by entry.
\<close>

definition fdot :: "float64 list \<Rightarrow> float64 list \<Rightarrow> float64" where
  "fdot x y = foldl (\<lambda>acc (p, q). fadd acc (fmul p q)) fzero (zip x y)"

definition cosine_similarity_f64 :: kernel where
  "cosine_similarity_f64 job_counts resume_counts =
     valof (fdot (l2_normalize (l2_normalize (tfidf_row job_counts)))
                 (l2_normalize (l2_normalize (tfidf_row resume_counts))))"

text \<open>
  \<open>sorted(xs, key=k, reverse=True)\<close>: descending by key, and stable (items with equal keys
  keep their order). \<^const>\<open>sort_key\<close> is a stable ascending sort.
\<close>

definition sorted_reverse :: "('a \<Rightarrow> real) \<Rightarrow> 'a list \<Rightarrow> 'a list" where
  "sorted_reverse key xs = sort_key (\<lambda>x. - key x) xs"

text \<open>
  \<^verbatim>\<open>
  def rank_resumes(self, resumes, job_description):
      vectorizer = TfidfVectorizer()
      job_vec = vectorizer.fit_transform([job_description])
      scores = []
      for resume in resumes:
          resume_vec = vectorizer.transform([resume['raw_text']])
          score = cosine_similarity(job_vec, resume_vec)[0][0]
          scores.append(score)
      ranked_resumes = sorted(zip(resumes, scores), key=lambda x: x[1], reverse=True)
      return ranked_resumes
  \<close>
  The model returns, beside the outcome, the number of scores that were computed.
\<close>

fun score_loop :: "kernel \<Rightarrow> vectorizer \<Rightarrow> nat list \<Rightarrow> resume list \<Rightarrow> real list \<Rightarrow> real list" where
  "score_loop cosine_similarity v job_vec [] scores = scores"
| "score_loop cosine_similarity v job_vec (resume # rest) scores =
     (let resume_vec = transform v (raw_text resume);
          score = cosine_similarity job_vec resume_vec
      in score_loop cosine_similarity v job_vec rest (scores @ [score]))"

definition rank_resumes ::
  "kernel \<Rightarrow> ResumeParser \<Rightarrow> resume list \<Rightarrow> string \<Rightarrow> (error + (resume \<times> real) list) \<times> nat" where
  "rank_resumes cosine_similarity self resumes job_description =
     (case fit_transform job_description of
        Inl e \<Rightarrow> (Inl e, 0)
      | Inr (v, job_vec) \<Rightarrow>
          (let scores = score_loop cosine_similarity v job_vec resumes []
           in (Inr (sorted_reverse snd (zip resumes scores)), length scores)))"

text \<open>
  The call in \<open>main\<close>, which catches no exception:
  \<^verbatim>\<open>
      if job_description.strip():
          ranked_resumes = parser.rank_resumes(resumes, job_description)
  \<close>
  \<open>None\<close> is the run that does not call the ranker.
\<close>

definition main_ranking ::
  "kernel \<Rightarrow> ResumeParser \<Rightarrow> resume list \<Rightarrow> string
     \<Rightarrow> ((error + (resume \<times> real) list) \<times> nat) option" where
  "main_ranking cosine_similarity parser resumes job_description =
     (if strip job_description \<noteq> []
      then Some (rank_resumes cosine_similarity parser resumes job_description)
      else None)"

section \<open>Example data\<close>

text \<open>
  Two resumes and a job description as in an end-to-end run, and a pipeline that found
  the skill \<open>Python\<close> twice in its text.
\<close>

definition resume_A :: resume where
  "resume_A = \<lparr>skills = [''Python'', ''SQL'', ''Machine Learning''], education = [],
     experience = [], raw_text = ''Python SQL Machine Learning'', name = Some ''A''\<rparr>"

definition resume_B :: resume where
  "resume_B = \<lparr>skills = [], education = [], experience = [],
     raw_text = ''Excel PowerPoint'', name = Some ''B''\<rparr>"

definition resume_C :: resume where
  "resume_C = \<lparr>skills = [], education = [], experience = [],
     raw_text = ''excel ml'', name = Some ''C''\<rparr>"

text \<open>A table of decimal digits above U+00FF: the Arabic-Indic digits U+0660 to U+0669.\<close>

definition arabic_indic :: "nat \<Rightarrow> bool" where
  "arabic_indic c = (1632 \<le> c \<and> c \<le> 1641)"

definition python_twice :: "string \<Rightarrow> entity list" where
  "python_twice t =
     [\<lparr>ent_text = ''Python'', ent_label = ''SKILL''\<rparr>,
      \<lparr>ent_text = ''Python'', ent_label = ''SKILL''\<rparr>]"

definition example_parser :: ResumeParser where
  "example_parser = \<lparr>nlp = python_twice\<rparr>"


section \<open>Properties of the matcher\<close>

text \<open>A result of the matcher is the subject without a prefix, the matched text; the
  character before the new position is the last one of that text.\<close>

lemma star_match_consumes:
  "(q, rest) \<in> set (star_match P p s) \<Longrightarrow>
   \<exists>m. s = m @ rest \<and> q = (if m = [] then p else Some (last m))"
proof (induction s arbitrary: p)
  case Nil
  then show ?case by simp
next
  case (Cons c t)
  show ?case
  proof (cases "(q, rest) = (p, c # t)")
    case True
    then show ?thesis by simp
  next
    case False
    with Cons.prems have "P c" and "(q, rest) \<in> set (star_match P (Some c) t)"
      by (auto split: if_splits)
    from Cons.IH [OF this(2)] obtain m where "t = m @ rest"
      and "q = (if m = [] then Some c else Some (last m))"
      by blast
    then have "c # t = (c # m) @ rest \<and> q = (if c # m = [] then p else Some (last (c # m)))"
      by simp
    then show ?thesis by blast
  qed
qed

lemma rx_match_consumes:
  "(q, rest) \<in> set (rx_match r (p, s)) \<Longrightarrow>
   \<exists>m. s = m @ rest \<and> q = (if m = [] then p else Some (last m))"
proof (induction r arbitrary: p s q rest)
  case (Cls P)
  then show ?case
    by (cases s) (auto split: if_splits)
next
  case (Seq a b)
  from Seq.prems obtain q1 r1 where a: "(q1, r1) \<in> set (rx_match a (p, s))"
    and b: "(q, rest) \<in> set (rx_match b (q1, r1))"
    by auto
  from Seq.IH(1) [OF a] obtain m1 where m1: "s = m1 @ r1"
    "q1 = (if m1 = [] then p else Some (last m1))" by blast
  from Seq.IH(2) [OF b] obtain m2 where m2: "r1 = m2 @ rest"
    "q = (if m2 = [] then q1 else Some (last m2))" by blast
  from m1 m2 have "s = (m1 @ m2) @ rest
      \<and> q = (if m1 @ m2 = [] then p else Some (last (m1 @ m2)))"
    by simp
  then show ?case by blast
next
  case (Alt a b)
  from Alt.prems have "(q, rest) \<in> set (rx_match a (p, s)) \<or> (q, rest) \<in> set (rx_match b (p, s))"
    by simp
  then show ?case
    using Alt.IH by blast
next
  case (Star P)
  then have "(q, rest) \<in> set (star_match P p s)" by simp
  then show ?case by (rule star_match_consumes)
next
  case (Bnd W)
  then show ?case by (auto split: if_splits)
qed


text \<open>A repetition of a class matches exactly the prefixes inside the class.\<close>

lemma star_match_all:
  "(q, rest) \<in> set (star_match P p s) \<Longrightarrow> \<exists>m. s = m @ rest \<and> (\<forall>c\<in>set m. P c)"
proof (induction s arbitrary: p)
  case Nil
  then show ?case by simp
next
  case (Cons c t)
  show ?case
  proof (cases "(q, rest) = (p, c # t)")
    case True
    then show ?thesis by simp
  next
    case False
    with Cons.prems have c: "P c" and "(q, rest) \<in> set (star_match P (Some c) t)"
      by (auto split: if_splits)
    from Cons.IH [OF this(2)] obtain m where "t = m @ rest" "\<forall>c\<in>set m. P c"
      by blast
    with c have "c # t = (c # m) @ rest \<and> (\<forall>x\<in>set (c # m). P x)"
      by simp
    then show ?thesis by blast
  qed
qed

lemma star_match_prefix:
  "\<forall>c\<in>set m. P c \<Longrightarrow> \<exists>q. (q, rest) \<in> set (star_match P p (m @ rest))"
proof (induction m arbitrary: p)
  case Nil
  show ?case by (cases rest) auto
next
  case (Cons c m)
  then have "P c" and "\<forall>x\<in>set m. P x" by simp_all
  from Cons.IH [OF this(2), of "Some c"] obtain q where "(q, rest) \<in> set (star_match P (Some c) (m @ rest))"
    by blast
  with \<open>P c\<close> show ?case by auto
qed


text \<open>Without \<open>\b\<close>, what a pattern matches depends neither on the character before nor
  on the text after the match.\<close>

lemma rx_match_transfer:
  assumes "bnd_free r" and "(q, rest) \<in> set (rx_match r (p, m @ rest))"
  shows "\<exists>q'. (q', rest') \<in> set (rx_match r (p', m @ rest'))"
  using assms
proof (induction r arbitrary: p p' q m rest rest')
  case (Cls P)
  then obtain c where "m @ rest = c # rest" and "P c"
    by (cases "m @ rest") (auto split: if_splits)
  then have "m = [c]" by simp
  with \<open>P c\<close> show ?case by simp
next
  case (Seq a b)
  from Seq.prems obtain q1 r1 where a: "(q1, r1) \<in> set (rx_match a (p, m @ rest))"
    and b: "(q, rest) \<in> set (rx_match b (q1, r1))"
    by auto
  from rx_match_consumes [OF b] obtain m2 where r1: "r1 = m2 @ rest" by blast
  from rx_match_consumes [OF a] obtain m1 where "m @ rest = m1 @ r1" by blast
  with r1 have m: "m = m1 @ m2" by simp
  from a r1 m have "(q1, m2 @ rest) \<in> set (rx_match a (p, m1 @ (m2 @ rest)))" by simp
  with Seq.IH(1) [of q1 "m2 @ rest" p m1 "m2 @ rest'" p'] Seq.prems(1)
  obtain q1' where a': "(q1', m2 @ rest') \<in> set (rx_match a (p', m1 @ (m2 @ rest')))"
    by auto
  from b r1 Seq.IH(2) [of q rest q1 m2 rest' q1'] Seq.prems(1)
  obtain q' where "(q', rest') \<in> set (rx_match b (q1', m2 @ rest'))"
    by auto
  with a' m show ?case by auto
next
  case (Alt a b)
  from Alt.prems have "(q, rest) \<in> set (rx_match a (p, m @ rest)) \<or> (q, rest) \<in> set (rx_match b (p, m @ rest))"
    by simp
  then show ?case
  proof
    assume "(q, rest) \<in> set (rx_match a (p, m @ rest))"
    with Alt.IH(1) [of q rest p m rest' p'] Alt.prems(1) show ?thesis by auto
  next
    assume "(q, rest) \<in> set (rx_match b (p, m @ rest))"
    with Alt.IH(2) [of q rest p m rest' p'] Alt.prems(1) show ?thesis by auto
  qed
next
  case (Star P)
  then have "(q, rest) \<in> set (star_match P p (m @ rest))" by simp
  from star_match_all [OF this] obtain m0 where "m @ rest = m0 @ rest" "\<forall>c\<in>set m0. P c"
    by blast
  then have "\<forall>c\<in>set m. P c" by simp
  from star_match_prefix [OF this] show ?case by simp
next
  case (Bnd W)
  then show ?case by simp
qed

lemma rx_match_empty_transfer:
  assumes "bnd_free r" and "rx_match r (p, m @ rest) = []"
  shows "\<forall>(q, rest0) \<in> set (rx_match r (p', m)). False"
proof (clarify)
  fix q rest0
  assume mem: "(q, rest0) \<in> set (rx_match r (p', m))"
  from rx_match_consumes [OF mem] obtain m0 where m: "m = m0 @ rest0" by blast
  with mem have "(q, rest0) \<in> set (rx_match r (p', m0 @ rest0))" by simp
  from rx_match_transfer [OF assms(1) this, of "rest0 @ rest" p]
  obtain q' where "(q', rest0 @ rest) \<in> set (rx_match r (p, m0 @ rest0 @ rest))" by blast
  with assms(2) m show False by simp
qed

lemma rx_match_Nil_transfer:
  assumes "bnd_free r" and "rx_match r (p, m @ rest) = []"
  shows "rx_match r (p', m) = []"
proof (cases "rx_match r (p', m)")
  case Nil
  then show ?thesis .
next
  case (Cons st sts)
  then have "st \<in> set (rx_match r (p', m))" by simp
  with rx_match_empty_transfer [OF assms, of p'] show ?thesis by blast
qed


text \<open>Where a pattern starts and where it ends.\<close>

lemma rx_match_Seq_nonempty: "rx_match (Seq a b) st \<noteq> [] \<Longrightarrow> rx_match a st \<noteq> []"
  by auto

lemma rx_match_alts_nonempty:
  "rx_match (alts rs) st \<noteq> [] \<Longrightarrow> \<exists>r\<in>set rs. rx_match r st \<noteq> []"
  by (induction rs rule: alts.induct) (auto split: list.splits)

lemma ends_Cls:
  "(q, rest) \<in> set (rx_match (Cls P) (p, s)) \<Longrightarrow> \<exists>m c. s = m @ c # rest \<and> P c"
  by (cases s) (auto split: if_splits)

lemma ends_Seq:
  assumes mem: "(q, rest) \<in> set (rx_match (Seq a b) (p, s))"
    and b: "\<And>p s. (q, rest) \<in> set (rx_match b (p, s)) \<Longrightarrow> \<exists>m c. s = m @ c # rest \<and> P c"
  shows "\<exists>m c. s = m @ c # rest \<and> P c"
proof -
  from mem obtain q1 r1 where a: "(q1, r1) \<in> set (rx_match a (p, s))"
    and "(q, rest) \<in> set (rx_match b (q1, r1))"
    by auto
  from b [OF this(2)] obtain m2 c where "r1 = m2 @ c # rest" and c: "P c" by blast
  moreover from rx_match_consumes [OF a] obtain m1 where "s = m1 @ r1" by blast
  ultimately have "s = (m1 @ m2) @ c # rest" by simp
  with c show ?thesis by blast
qed


section \<open>Properties of the scan\<close>

text \<open>Every span that \<open>finditer\<close> reports was matched at some position.\<close>

lemma finditer_reports:
  "m \<in> set (finditer r p s) \<Longrightarrow>
   \<exists>p' rest q. (q, rest) \<in> set (rx_match r (p', m @ rest))"
proof (induction r p s rule: finditer.induct)
  case (1 r p)
  show ?case
  proof (cases "rx_match r (p, [])")
    case Nil
    with "1.prems" show ?thesis by simp
  next
    case (Cons st sts)
    with "1.prems" have m: "m = []" by simp
    obtain q rest where st: "st = (q, rest)" by (cases st)
    with Cons have mem: "(q, rest) \<in> set (rx_match r (p, []))" by simp
    then have "rest = []" using rx_match_consumes by fastforce
    with mem m show ?thesis by auto
  qed
next
  case (2 r p c t)
  show ?case
  proof (cases "rx_match r (p, c # t)")
    case Nil
    with "2.prems" have "m \<in> set (finditer r (Some c) t)" by simp
    from "2.IH"(1) [OF Nil this] show ?thesis .
  next
    case (Cons st sts)
    obtain q rest where st: "st = (q, rest)" by (cases st)
    from Cons st have mem: "(q, rest) \<in> set (rx_match r (p, c # t))" by simp
    then obtain m0 where m0: "c # t = m0 @ rest"
      using rx_match_consumes by blast
    then have len: "length (c # t) = length m0 + length rest" by (metis length_append)
    show ?thesis
    proof (cases "length rest \<le> length t")
      case True
      have tk: "take (Suc (length t) - length rest) (c # t) = m0"
        using m0 len by (metis add_diff_cancel_right' append_eq_conv_conj length_Cons)
      with Cons st True "2.prems" have "m = m0 \<or> m \<in> set (finditer r q rest)"
        by simp
      then show ?thesis
      proof
        assume "m = m0"
        with mem m0 show ?thesis by metis
      next
        assume "m \<in> set (finditer r q rest)"
        from "2.IH"(2) [OF Cons st [symmetric] True this] show ?thesis .
      qed
    next
      case False
      with len have "length m0 = 0" unfolding length_Cons by linarith
      then have "m0 = []" by simp
      with m0 have r: "rest = c # t" by simp
      from Cons st False "2.prems" have "m = [] \<or> m \<in> set (finditer r (Some c) t)"
        by simp
      then show ?thesis
      proof
        assume "m = []"
        with mem r show ?thesis by (metis append_Nil)
      next
        assume "m \<in> set (finditer r (Some c) t)"
        from "2.IH"(3) [OF Cons st [symmetric] False this] show ?thesis .
      qed
    qed
  qed
qed

lemma finditer_fullmatch:
  assumes "bnd_free r" and "m \<in> set (finditer r p s)"
  shows "fullmatch r m"
proof -
  from finditer_reports [OF assms(2)] obtain p' rest q
    where "(q, rest) \<in> set (rx_match r (p', m @ rest))" by blast
  from rx_match_transfer [OF assms(1) this, of "[]" None]
  obtain q' where "(q', []) \<in> set (rx_match r (None, m))" by auto
  then have "\<exists>st\<in>set (rx_match r (None, m)). snd st = []"
    by (rule bexI [rotated]) simp
  then show ?thesis
    by (simp add: fullmatch_def list_ex_iff)
qed


text \<open>Without \<open>\b\<close> the matcher returns the same rests whatever stands before, so the
  scan finds at a position what \<open>first_match\<close> finds there.\<close>

lemma star_match_rests: "map snd (star_match P p s) = map snd (star_match P p' s)"
  by (induction s arbitrary: p p') simp_all

lemma concat_map_rests:
  assumes "map snd xs = map snd ys"
    and "\<And>x y. snd x = snd y \<Longrightarrow> map snd (f x) = map snd (f y)"
  shows "map snd (concat (map f xs)) = map snd (concat (map f ys))"
  using assms(1)
proof (induction xs arbitrary: ys)
  case Nil
  then show ?case by simp
next
  case (Cons x xs)
  then obtain y ys' where ys: "ys = y # ys'" and xy: "snd x = snd y"
    and rest: "map snd xs = map snd ys'"
    by (cases ys) auto
  from Cons.IH [OF rest] assms(2) [OF xy] ys show ?case by simp
qed

lemma rx_match_rests:
  "bnd_free r \<Longrightarrow> map snd (rx_match r (p, s)) = map snd (rx_match r (p', s))"
proof (induction r arbitrary: p p' s)
  case (Cls P)
  then show ?case by (cases s) simp_all
next
  case (Seq a b)
  from Seq.prems have bf: "bnd_free a" "bnd_free b" by simp_all
  have a: "map snd (rx_match a (p, s)) = map snd (rx_match a (p', s))"
    by (rule Seq.IH(1) [OF bf(1)])
  have "map snd (rx_match b x) = map snd (rx_match b y)" if "snd x = snd y" for x y
    using that Seq.IH(2) [OF bf(2), of "fst x" "snd x" "fst y"] by (cases x, cases y) simp
  from concat_map_rests [OF a this] show ?case by simp
next
  case (Alt a b)
  from Alt.prems have bf: "bnd_free a" "bnd_free b" by simp_all
  from Alt.IH(1) [OF bf(1), of p s p'] Alt.IH(2) [OF bf(2), of p s p'] show ?case by simp
next
  case (Star P)
  then show ?case by (simp add: star_match_rests)
next
  case (Bnd W)
  then show ?case by simp
qed

lemma first_match_None:
  assumes "bnd_free r"
  shows "first_match r s = None \<longleftrightarrow> rx_match r (p, s) = []"
proof -
  from rx_match_rests [OF assms, of None s p]
  have "rx_match r (None, s) = [] \<longleftrightarrow> rx_match r (p, s) = []"
    by (metis map_is_Nil_conv)
  then show ?thesis
    by (auto simp: first_match_def split: list.splits)
qed

lemma first_match_Some:
  assumes "bnd_free r" and "rx_match r (p, s) = (q, rest) # sts"
  shows "first_match r s = Some (take (length s - length rest) s)"
proof -
  from rx_match_rests [OF assms(1), of None s p] assms(2)
  have "map snd (rx_match r (None, s)) = rest # map snd sts"
    by simp
  then obtain q' sts' where "rx_match r (None, s) = (q', rest) # sts'"
    by (cases "rx_match r (None, s)") auto
  then show ?thesis
    by (simp add: first_match_def)
qed

text \<open>
  For a pattern without \<open>\b\<close> that never matches the empty string, the spans that the scan
  reports are the leftmost matches that do not overlap, and only these are: the subject is
  a weave of gaps and the reported spans that is \<open>scanned\<close>, and a scanned weave of the
  subject has the reported spans.
\<close>

lemma weave_Cons_Cons: "weave ((c # g) # gs) ms = c # weave (g # gs) ms"
  by (cases ms) simp_all

lemma finditer_Nil_consuming:
  assumes "\<forall>p s q rest. (q, rest) \<in> set (rx_match r (p, s)) \<longrightarrow> length rest < length s"
  shows "finditer r p [] = []"
proof (cases "rx_match r (p, [])")
  case Nil
  then show ?thesis by simp
next
  case (Cons st sts)
  obtain q rest where "st = (q, rest)" by (cases st)
  with Cons have "(q, rest) \<in> set (rx_match r (p, []))" by simp
  with assms show ?thesis by fastforce
qed

lemma first_match_Nil_consuming:
  assumes "\<forall>p s q rest. (q, rest) \<in> set (rx_match r (p, s)) \<longrightarrow> length rest < length s"
  shows "first_match r [] = None"
proof (cases "rx_match r (None, [])")
  case Nil
  then show ?thesis by (simp add: first_match_def)
next
  case (Cons st sts)
  obtain q rest where "st = (q, rest)" by (cases st)
  with Cons have "(q, rest) \<in> set (rx_match r (None, []))" by simp
  with assms show ?thesis by fastforce
qed

lemma scanned_Cons_gap:
  assumes "first_match r (c # weave (g # gs) ms) = None" and "scanned r (g # gs) ms"
  shows "scanned r ((c # g) # gs) ms"
proof (cases ms)
  case Nil
  with assms(2) have "gs = []" by (cases gs) simp_all
  with Nil assms show ?thesis by simp
next
  case (Cons m ms')
  with assms show ?thesis by simp
qed

lemma finditer_scanned:
  assumes bf: "bnd_free r"
    and nn: "\<forall>p s q rest. (q, rest) \<in> set (rx_match r (p, s)) \<longrightarrow> length rest < length s"
  shows "\<exists>gaps. length gaps = Suc (length (finditer r p s))
      \<and> weave gaps (finditer r p s) = s
      \<and> scanned r gaps (finditer r p s)"
  using bf nn
proof (induction r p s rule: finditer.induct)
  case (1 r p)
  have "finditer r p [] = []"
    by (rule finditer_Nil_consuming) (rule "1.prems"(2))
  moreover have "first_match r [] = None"
    by (rule first_match_Nil_consuming) (rule "1.prems"(2))
  ultimately have "length [[]] = Suc (length (finditer r p []))
      \<and> weave [[]] (finditer r p []) = []
      \<and> scanned r [[]] (finditer r p [])"
    by simp
  then show ?case by blast
next
  case (2 r p c t)
  show ?case
  proof (cases "rx_match r (p, c # t)")
    case Nil
    from "2.IH"(1) [OF Nil "2.prems"(1) "2.prems"(2)]
    obtain gaps where g: "length gaps = Suc (length (finditer r (Some c) t))"
      "weave gaps (finditer r (Some c) t) = t"
      "scanned r gaps (finditer r (Some c) t)" by blast
    then obtain g0 gs where gaps: "gaps = g0 # gs" by (cases gaps) auto
    from Nil have "first_match r (c # t) = None"
      using first_match_None [OF "2.prems"(1), of "c # t" p] by simp
    with g gaps have "scanned r ((c # g0) # gs) (finditer r (Some c) t)"
      by (simp add: scanned_Cons_gap)
    with g gaps Nil have "length ((c # g0) # gs) = Suc (length (finditer r p (c # t)))
        \<and> weave ((c # g0) # gs) (finditer r p (c # t)) = c # t
        \<and> scanned r ((c # g0) # gs) (finditer r p (c # t))"
      by (simp add: weave_Cons_Cons)
    then show ?thesis by blast
  next
    case (Cons st sts)
    obtain q rest where st: "st = (q, rest)" by (cases st)
    from Cons st have mem: "(q, rest) \<in> set (rx_match r (p, c # t))" by simp
    from "2.prems"(2) mem have "length rest < length (c # t)" by blast
    then have True: "length rest \<le> length t" by simp
    from mem obtain m where m: "c # t = m @ rest"
      using rx_match_consumes by blast
    then have "length (c # t) = length m + length rest" by (metis length_append)
    then have tk: "take (length (c # t) - length rest) (c # t) = m"
      using m by (metis add_diff_cancel_right' append_eq_conv_conj)
    with Cons st True have fi: "finditer r p (c # t) = m # finditer r q rest"
      by simp
    from Cons st tk have fm: "first_match r (m @ rest) = Some m"
      using first_match_Some [OF "2.prems"(1), of p "c # t" q rest sts] m by simp
    from "2.IH"(2) [OF Cons st [symmetric] True "2.prems"(1) "2.prems"(2)]
    obtain gaps where g: "length gaps = Suc (length (finditer r q rest))"
      "weave gaps (finditer r q rest) = rest"
      "scanned r gaps (finditer r q rest)" by blast
    have "length ([] # gaps) = Suc (length (finditer r p (c # t)))
        \<and> weave ([] # gaps) (finditer r p (c # t)) = c # t
        \<and> scanned r ([] # gaps) (finditer r p (c # t))"
      using g fi m fm by simp
    then show ?thesis by blast
  qed
qed

lemma finditer_unmatched:
  assumes bf: "bnd_free r" and "unmatched r g rest"
  shows "finditer r p (g @ rest) = finditer r (if g = [] then p else Some (last g)) rest"
  using assms(2)
proof (induction g arbitrary: p)
  case Nil
  then show ?case by simp
next
  case (Cons c g)
  then have "first_match r (c # g @ rest) = None" and u: "unmatched r g rest"
    by simp_all
  then have "rx_match r (p, c # g @ rest) = []"
    using first_match_None [OF bf, of "c # g @ rest" p] by simp
  then have "finditer r p ((c # g) @ rest) = finditer r (Some c) (g @ rest)"
    by simp
  with Cons.IH [OF u, of "Some c"] show ?case by simp
qed

lemma scanned_finditer:
  assumes bf: "bnd_free r"
    and nn: "\<forall>p s q rest. (q, rest) \<in> set (rx_match r (p, s)) \<longrightarrow> length rest < length s"
    and sc: "scanned r gaps ms"
  shows "finditer r p (weave gaps ms) = ms"
  using sc bf nn
proof (induction r gaps ms arbitrary: p rule: scanned.induct)
  case (1 r g)
  then have "unmatched r g []" and bf: "bnd_free r" by simp_all
  from finditer_unmatched [OF bf this(1), of p]
  have "finditer r p g = finditer r (if g = [] then p else Some (last g)) []"
    by simp
  also have "\<dots> = []"
    by (rule finditer_Nil_consuming [OF "1.prems"(3)])
  finally show ?case by simp
next
  case (2 r g gs m ms)
  then have u: "unmatched r g (m @ weave gs ms)"
    and fm: "first_match r (m @ weave gs ms) = Some m"
    and sc: "scanned r gs ms"
    and bf: "bnd_free r"
    and nn: "\<forall>p s q rest. (q, rest) \<in> set (rx_match r (p, s)) \<longrightarrow> length rest < length s"
    by simp_all
  let ?rest = "weave gs ms"
  let ?p = "if g = [] then p else Some (last g)"
  from fm first_match_None [OF bf, of "m @ ?rest" ?p]
  obtain st sts where ne: "rx_match r (?p, m @ ?rest) = st # sts"
    by (cases "rx_match r (?p, m @ ?rest)") auto
  obtain q rest where st: "st = (q, rest)" by (cases st)
  from first_match_Some [OF bf, of ?p "m @ ?rest" q rest sts] ne st fm
  have tk: "take (length (m @ ?rest) - length rest) (m @ ?rest) = m" by simp
  from ne st have mem: "(q, rest) \<in> set (rx_match r (?p, m @ ?rest))" by simp
  then obtain m0 where m0: "m @ ?rest = m0 @ rest"
    using rx_match_consumes by blast
  then have "length (m @ ?rest) = length m0 + length rest" by (metis length_append)
  with m0 have "take (length (m @ ?rest) - length rest) (m @ ?rest) = m0"
    by (metis add_diff_cancel_right' append_eq_conv_conj)
  with tk have "m0 = m" by simp
  with m0 have rest: "rest = ?rest" by simp
  from nn mem have "length rest < length (m @ ?rest)" by blast
  with rest have mne: "m \<noteq> []" by auto
  then obtain c t where ct: "m @ ?rest = c # t" by (cases m) auto
  with rest have lt: "length rest \<le> length t"
    using \<open>length rest < length (m @ ?rest)\<close> by simp
  from ne st ct tk lt have "finditer r ?p (m @ ?rest) = m # finditer r q rest"
    by (simp del: append_eq_Cons_conv)
  with "2.IH" [OF sc bf nn, of q] rest have "finditer r ?p (m @ ?rest) = m # ms"
    by simp
  with finditer_unmatched [OF bf u, of p] show ?case by simp
qed simp_all

section \<open>Whitespace and \<open>strip\<close>\<close>

lemma isspace_not_isword: "isspace c \<Longrightarrow> \<not> isword c"
  by (auto simp: isspace_def isword_def isdigit_def isupper_ascii_def islower_ascii_def)

lemma lower_char_isspace: "isspace c \<Longrightarrow> lower_char c = c"
  by (auto simp: isspace_def lower_char_def isupper_ascii_def)

lemma strip_empty_iff: "strip s = [] \<longleftrightarrow> (\<forall>c\<in>set s. isspace c)"
proof
  assume "strip s = []"
  then have "dropWhile isspace (rev (dropWhile isspace s)) = []"
    by (simp add: strip_def)
  then have all: "\<forall>c\<in>set (dropWhile isspace s). isspace c"
    by simp
  have "dropWhile isspace s = []"
  proof (cases "dropWhile isspace s")
    case Nil
    then show ?thesis .
  next
    case (Cons c t)
    then have "\<not> isspace c"
      using hd_dropWhile [of isspace s] by simp
    with all Cons show ?thesis by simp
  qed
  then show "\<forall>c\<in>set s. isspace c"
    by simp
next
  assume "\<forall>c\<in>set s. isspace c"
  then have "dropWhile isspace s = []"
    by simp
  then show "strip s = []"
    unfolding strip_def by (simp del: dropWhile_eq_Nil_conv)
qed

lemma set_strip: "set (strip s) \<subseteq> set s"
proof -
  have "set (strip s) = set (dropWhile isspace (rev (dropWhile isspace s)))"
    by (simp add: strip_def)
  also have "\<dots> \<subseteq> set (rev (dropWhile isspace s))" by (rule set_dropWhileD [THEN subsetI]) 
  also have "\<dots> \<subseteq> set s" using set_dropWhileD by fastforce
  finally show ?thesis .
qed

lemma strip_trimmed:
  "strip s = [] \<or> (\<not> isspace (hd (strip s)) \<and> \<not> isspace (last (strip s)))"
proof (cases "dropWhile isspace (rev (dropWhile isspace s))")
  case Nil
  then show ?thesis by (simp add: strip_def)
next
  case (Cons a as)
  then have a: "\<not> isspace a"
    using hd_dropWhile [of isspace "rev (dropWhile isspace s)"] by simp
  from Cons have st: "strip s = rev (a # as)" by (simp add: strip_def)
  then have l: "last (strip s) = a" by simp
  have "dropWhile isspace s \<noteq> []"
  proof
    assume "dropWhile isspace s = []"
    then have "dropWhile isspace (rev (dropWhile isspace s)) = []"
      by (simp del: dropWhile_eq_Nil_conv)
    with Cons show False by simp
  qed
  then have h: "\<not> isspace (hd (dropWhile isspace s))" by (rule hd_dropWhile)
  have "\<exists>pre. rev (dropWhile isspace s) = pre @ a # as"
    using Cons by (metis takeWhile_dropWhile_id)
  then obtain pre where "rev (dropWhile isspace s) = pre @ a # as" by blast
  then have "dropWhile isspace s = rev (a # as) @ rev pre"
    by (metis rev_append rev_rev_ident)
  with st have "hd (dropWhile isspace s) = hd (strip s)"
    by (cases "rev as") simp_all
  with h a l st show ?thesis by simp
qed

lemma ustrip_id:
  assumes "m \<noteq> []" "\<not> uspace (hd m)" "\<not> uspace (last m)"
  shows "ustrip m = m"
proof -
  from assms have "dropWhile uspace m = m"
    by (cases m) simp_all
  moreover have "dropWhile uspace (rev m) = rev m"
  proof (cases "rev m")
    case Nil
    then show ?thesis by simp
  next
    case (Cons a as)
    then have "hd (rev m) = a" by simp
    with assms have "\<not> uspace a" by (simp add: hd_rev)
    with Cons show ?thesis by simp
  qed
  ultimately show ?thesis
    by (simp add: ustrip_def)
qed

section \<open>The text normalizer: what holds and what does not\<close>

text \<open>Removing single characters is filtering; collapsing whitespace leaves the space as
  the only whitespace character.\<close>

lemma sub_Cls_filter: "sub (Cls Q) [] p s = filter (\<lambda>c. \<not> Q c) s"
  by (induction s arbitrary: p) simp_all

lemma sub_collapse_chars:
  "set (sub (plus isspace) '' '' p s) \<subseteq> {c \<in> set s. \<not> isspace c} \<union> {CHR '' ''}"
proof (induction "plus isspace" "'' ''" p s rule: sub.induct)
  case (1 p)
  then show ?case by (simp add: plus_def)
next
  case (2 p c t)
  show ?case
  proof (cases "rx_match (plus isspace) (p, c # t)")
    case Nil
    then have "\<not> isspace c"
      by (cases t) (auto simp: plus_def split: if_splits)
    with Nil "2.hyps"(1) [OF Nil] show ?thesis by auto
  next
    case (Cons st sts)
    obtain q rest where st: "st = (q, rest)" by (cases st)
    from Cons st have mem: "(q, rest) \<in> set (rx_match (plus isspace) (p, c # t))" by simp
    then obtain m where m: "c # t = m @ rest"
      using rx_match_consumes by blast
    then have sub: "set rest \<subseteq> set (c # t)" by (metis set_append Un_upper2)
    show ?thesis
    proof (cases "length rest \<le> length t")
      case True
      with Cons st have "sub (plus isspace) '' '' p (c # t) = '' '' @ sub (plus isspace) '' '' q rest"
        by simp
      with "2.hyps"(2) [OF Cons st [symmetric] True] sub show ?thesis by auto
    next
      case False
      with m have "m = []" by (cases m) auto
      with mem m have "(q, c # t) \<in> set (rx_match (plus isspace) (p, c # t))" by simp
      then have False by (auto simp: plus_def split: if_splits dest: star_match_consumes)
      then show ?thesis ..
    qed
  qed
qed


text \<open>
  For every input the normalized text is over the alphabet of letters, digits, space,
  period, hyphen and comma, and it neither starts nor ends with whitespace.
\<close>

lemma clean_text_alphabet_trimmed:
  "(\<forall>c\<in>set (clean_text x). allowed c)
   \<and> (clean_text x = [] \<or> (\<not> isspace (hd (clean_text x)) \<and> \<not> isspace (last (clean_text x))))"
proof -
  let ?a = "sub (plus isspace) '' '' None x"
  let ?b = "sub (Cls (\<lambda>c. \<not> kept c)) [] None ?a"
  have cl: "clean_text x = strip ?b" by (simp add: clean_text_def Let_def)
  have "\<forall>c\<in>set ?b. kept c \<and> (isspace c \<longrightarrow> c = CHR '' '')"
    using sub_collapse_chars [of None x] by (auto simp: sub_Cls_filter)
  then have "\<forall>c\<in>set ?b. allowed c"
    by (auto simp: kept_def allowed_def)
  with set_strip [of ?b] have "\<forall>c\<in>set (clean_text x). allowed c"
    unfolding cl by blast
  with strip_trimmed [of ?b] show ?thesis unfolding cl by blast
qed


text \<open>
  Claim C3 says that the normalized text never holds two consecutive spaces, is over the
  alphabet above and has no leading or trailing whitespace. The last two hold
  (\<open>clean_text_alphabet_trimmed\<close>). The first fails: whitespace is collapsed before the
  other characters are removed, so a removed character that stood between two spaces
  leaves both. On \<open>C++ & Java\<close> the result is \<open>C\<close>, two spaces, \<open>Java\<close>.
\<close>

theorem clean_text_leaves_double_space:
  "clean_text ''C++ & Java'' = ''C  Java'' \<and> has_double_space (clean_text ''C++ & Java'')"
  by code_simp

text \<open>
  Claim C2 says that normalizing twice is normalizing once. It fails for the same reason:
  the second pass collapses the two spaces that the first pass left. On \<open>Python / SQL\<close>
  the first pass gives \<open>Python\<close>, two spaces, \<open>SQL\<close>, and the second pass one space.
\<close>

theorem clean_text_second_pass_differs:
  "clean_text ''Python / SQL'' = ''Python  SQL''
   \<and> clean_text (clean_text ''Python / SQL'') = ''Python SQL''"
  by code_simp


section \<open>The experience span extractor: the spans it returns\<close>

text \<open>A match of the date-range pattern starts with a month token.\<close>

lemma rx_match_lit_nonempty:
  "rx_match (lit eq m) (p, s) \<noteq> [] \<Longrightarrow>
   length m \<le> length s \<and> list_all2 eq m (take (length m) s)"
proof (induction eq m arbitrary: p s rule: lit.induct)
  case (1 eq)
  then show ?case by simp
next
  case (2 eq a)
  then show ?case
    by (cases s) (auto split: if_splits)
next
  case (3 eq a b bs)
  show ?case
  proof (cases s)
    case Nil
    with "3.prems" show ?thesis by simp
  next
    case (Cons c t)
    with "3.prems" have ca: "eq a c" and rest: "rx_match (lit eq (b # bs)) (Some c, t) \<noteq> []"
      by (auto split: if_splits)
    from "3.IH" [OF rest] ca Cons show ?thesis
      by simp
  qed
qed

lemma experience_rx_needs_month:
  assumes "rx_match (experience_rx nd) (p, s) \<noteq> []"
  shows "month_token_at s"
proof -
  from assms have "rx_match (month_year nd) (p, s) \<noteq> []"
    unfolding experience_rx_def by (rule rx_match_Seq_nonempty)
  then have "rx_match (alts (map (\<lambda>m. lit ci (encode m)) months)) (p, s) \<noteq> []"
    unfolding month_year_def by (rule rx_match_Seq_nonempty)
  then obtain r where "r \<in> set (map (\<lambda>m. lit ci (encode m)) months)"
    and "rx_match r (p, s) \<noteq> []"
    using rx_match_alts_nonempty by blast
  then obtain m where "m \<in> set months" and "rx_match (lit ci (encode m)) (p, s) \<noteq> []"
    by auto
  then show ?thesis
    unfolding month_token_at_def list_ex_iff starts_with_ci_def
    using rx_match_lit_nonempty by blast
qed

lemma month_token_at_Nil: "\<not> month_token_at []"
  by (simp add: month_token_at_def months_def starts_with_ci_def encode_def)

lemma finditer_no_month:
  "\<not> has_month_token s \<Longrightarrow> finditer (experience_rx nd) p s = []"
proof (induction s arbitrary: p)
  case Nil
  have "rx_match (experience_rx nd) (p, []) = []"
    using experience_rx_needs_month [of nd p "[]"] month_token_at_Nil by blast
  then show ?case by simp
next
  case (Cons c t)
  then have "\<not> month_token_at (c # t)" and t: "\<not> has_month_token t"
    by simp_all
  then have "rx_match (experience_rx nd) (p, c # t) = []"
    using experience_rx_needs_month [of nd p "c # t"] by blast
  with Cons.IH [OF t] show ?case by simp
qed

text \<open>A match ends with a digit or with the last letter of \<open>present\<close>, and so it is not
  empty.\<close>

lemma ends_month_year:
  "(q, rest) \<in> set (rx_match (month_year nd) (p, s)) \<Longrightarrow>
   \<exists>m c. s = m @ c # rest \<and> digit nd c"
  unfolding month_year_def
  apply (erule ends_Seq)+
  apply (erule ends_Cls)
  done

lemma encode_present: "encode ''present'' = [112, 114, 101, 115, 101, 110, 116]"
  by (simp add: encode_def code_def)

lemma ends_present:
  "(q, rest) \<in> set (rx_match (lit ci (encode ''present'')) (p, s)) \<Longrightarrow>
   \<exists>m c. s = m @ c # rest \<and> ci 116 c"
  unfolding encode_present lit.simps
  apply (erule ends_Seq)+
  apply (erule ends_Cls)
  done

lemma ends_experience_rx:
  assumes "(q, rest) \<in> set (rx_match (experience_rx nd) (p, s))"
  shows "\<exists>m c. s = m @ c # rest \<and> (digit nd c \<or> ci 116 c)"
proof -
  have fin: "\<exists>m c. s = m @ c # rest \<and> (digit nd c \<or> ci 116 c)"
    if "(q, rest) \<in> set (rx_match (Alt (lit ci (encode ''present'')) (month_year nd)) (p, s))"
    for p s
  proof -
    from that have "(q, rest) \<in> set (rx_match (lit ci (encode ''present'')) (p, s))
        \<or> (q, rest) \<in> set (rx_match (month_year nd) (p, s))"
      by (simp only: rx_match.simps set_append Un_iff)
    then show ?thesis
      using ends_present ends_month_year by blast
  qed
  from assms
  have "(q, rest) \<in> set (rx_match
      (Seq (month_year nd)
        (Seq (plus separator) (Alt (lit ci (encode ''present'')) (month_year nd)))) (p, s))"
    unfolding experience_rx_def .
  then show ?thesis
    by (rule ends_Seq) (erule ends_Seq, erule fin)
qed

lemma experience_rx_consuming:
  "\<forall>p s q rest. (q, rest) \<in> set (rx_match (experience_rx nd) (p, s))
     \<longrightarrow> length rest < length s"
proof (intro allI impI)
  fix p s q rest
  assume "(q, rest) \<in> set (rx_match (experience_rx nd) (p, s))"
  from ends_experience_rx [OF this] obtain m c where "s = m @ c # rest" by blast
  then show "length rest < length s" by simp
qed

text \<open>Neither end of a match is whitespace, so \<open>strip\<close> leaves every match as it is.\<close>

lemma ci_upper_not_space:
  assumes "ci a c" and "65 \<le> a" and "a \<le> 90"
  shows "\<not> uspace c"
proof -
  from assms have "c = a \<or> c = a + 32 \<or> c = 383 \<or> c = 8490 \<or> c = 304 \<or> c = 305"
    by (auto simp: ci_def ascii_lower_def split: if_splits)
  with assms(2,3) show ?thesis
    by (auto simp: uspace_def)
qed

lemma months_upper:
  "\<forall>m\<in>set months. \<exists>a as. encode m = a # as \<and> 65 \<le> a \<and> a \<le> 90"
  by (simp add: months_def encode_def code_def)

lemma starts_with_ci_Cons:
  "starts_with_ci (a # as) s \<Longrightarrow> \<exists>c t. s = c # t \<and> ci a c"
  by (cases s) (simp_all add: starts_with_ci_def)

lemma month_token_at_first:
  assumes "month_token_at s"
  shows "\<exists>c t. s = c # t \<and> \<not> uspace c"
proof -
  from assms obtain m where m: "m \<in> set months" and st: "starts_with_ci (encode m) s"
    unfolding month_token_at_def list_ex_iff by blast
  from m months_upper obtain a as where ma: "encode m = a # as" and up: "65 \<le> a" "a \<le> 90"
    by blast
  from st ma starts_with_ci_Cons obtain c t where s: "s = c # t" and "ci a c"
    by metis
  with up ci_upper_not_space show ?thesis by blast
qed

lemma digit_not_space: "digit nd c \<Longrightarrow> \<not> uspace c"
  by (auto simp: digit_def uspace_def)

lemma ci_t_not_space: "ci 116 c \<Longrightarrow> \<not> uspace c"
proof -
  assume "ci 116 c"
  then have "c = 116 \<or> c = 84"
    by (auto simp: ci_def ascii_lower_def split: if_splits)
  then show ?thesis
    by (auto simp: uspace_def)
qed

lemma experience_match_trimmed:
  assumes "(q, rest) \<in> set (rx_match (experience_rx nd) (p, m @ rest))"
  shows "m \<noteq> [] \<and> \<not> uspace (hd m) \<and> \<not> uspace (last m)"
proof -
  from ends_experience_rx [OF assms] obtain m' c where
    eq: "m @ rest = m' @ c # rest" and c: "digit nd c \<or> ci 116 c"
    by blast
  then have m: "m = m' @ [c]" by simp
  from c have nc: "\<not> uspace c"
    using digit_not_space ci_t_not_space by blast
  from assms have "rx_match (experience_rx nd) (p, m @ rest) \<noteq> []" by auto
  then have "month_token_at (m @ rest)" by (rule experience_rx_needs_month)
  then obtain c0 t0 where "m @ rest = c0 # t0" and "\<not> uspace c0"
    using month_token_at_first by blast
  with m have "\<not> uspace (hd m)"
    by (cases m') auto
  with m nc show ?thesis by simp
qed

lemma finditer_experience_trimmed:
  assumes "m \<in> set (finditer (experience_rx nd) p s)"
  shows "ustrip m = m"
proof -
  from finditer_reports [OF assms] obtain p' rest q
    where "(q, rest) \<in> set (rx_match (experience_rx nd) (p', m @ rest))" by blast
  from experience_match_trimmed [OF this] show ?thesis
    by (simp add: ustrip_id)
qed

lemma extract_experience_finditer:
  "extract_experience nd text = finditer (experience_rx nd) None text"
proof -
  have "map ustrip (finditer (experience_rx nd) None text)
      = map id (finditer (experience_rx nd) None text)"
    by (rule map_cong) (simp_all add: finditer_experience_trimmed)
  then show ?thesis
    by (simp add: extract_experience_def)
qed

text \<open>The pattern has no \<open>\b\<close>.\<close>

lemma bnd_free_lit: "bnd_free (lit eq s)"
  by (induction eq s rule: lit.induct) simp_all

lemma bnd_free_alts: "\<forall>r\<in>set rs. bnd_free r \<Longrightarrow> bnd_free (alts rs)"
  by (induction rs rule: alts.induct) simp_all

lemma bnd_free_experience_rx: "bnd_free (experience_rx nd)"
  by (simp add: experience_rx_def month_year_def plus_def bnd_free_lit bnd_free_alts)

text \<open>The definitions that evaluating the extractor on a given text unfolds.\<close>

lemmas experience_defs = extract_experience_def experience_rx_def month_year_def months_def
  encode_def code_def plus_def digit_def filler_def separator_def uspace_def ci_def
  letter_ci_def ascii_lower_def ustrip_def

text \<open>
  Claim C8. \<open>_extract_experience\<close> returns the date ranges of the text from left to right:
  a list of spans is the result if and only if the text is these spans in their order
  with gaps around them, the pattern matches at no position of a gap, and every span is
  what the pattern matches where the span starts (the leftmost matches that do not
  overlap, each of them, none left out and none joined with an equal one). Every span
  is returned as it stands in the text (\<open>strip\<close> changes nothing) and is a date range as
  a whole. On the text of the claim the result is the two spans \<open>Jan 2019 - Present\<close> and
  \<open>Mar 2020 - Apr 2021\<close>; a range that occurs twice is returned twice; a range written
  with the en dash is found; and a text without a month token (in either case) gives
  the empty list.
\<close>

theorem extract_experience_spans:
  "extract_experience nd (encode ''Jan 2019 - Present some text Mar 2020 - Apr 2021'')
      = [encode ''Jan 2019 - Present'', encode ''Mar 2020 - Apr 2021'']
   \<and> extract_experience nd (encode ''Jan 2019 - Feb 2020, Jan 2019 - Feb 2020'')
      = [encode ''Jan 2019 - Feb 2020'', encode ''Jan 2019 - Feb 2020'']
   \<and> extract_experience nd (encode ''From january 2019 '' @ [8211] @ encode '' PRESENT on'')
      = [encode ''january 2019 '' @ [8211] @ encode '' PRESENT'']
   \<and> (\<not> has_month_token text \<longrightarrow> extract_experience nd text = [])
   \<and> (\<forall>spans. spans = extract_experience nd text \<longleftrightarrow>
         (\<exists>gaps. length gaps = Suc (length spans) \<and> weave gaps spans = text
            \<and> scanned (experience_rx nd) gaps spans))
   \<and> (\<forall>m\<in>set (extract_experience nd text).
         ustrip m = m \<and> fullmatch (experience_rx nd) m)"
proof -
  have ex1: "extract_experience nd (encode ''Jan 2019 - Present some text Mar 2020 - Apr 2021'')
      = [encode ''Jan 2019 - Present'', encode ''Mar 2020 - Apr 2021'']"
    by (simp add: experience_defs)
  have ex2: "extract_experience nd (encode ''Jan 2019 - Feb 2020, Jan 2019 - Feb 2020'')
      = [encode ''Jan 2019 - Feb 2020'', encode ''Jan 2019 - Feb 2020'']"
    by (simp add: experience_defs)
  have ex3: "extract_experience nd (encode ''From january 2019 '' @ [8211] @ encode '' PRESENT on'')
      = [encode ''january 2019 '' @ [8211] @ encode '' PRESENT'']"
    by (simp add: experience_defs)
  have none: "\<not> has_month_token text \<longrightarrow> extract_experience nd text = []"
    by (simp add: extract_experience_def finditer_no_month)
  have "spans = extract_experience nd text \<longleftrightarrow>
         (\<exists>gaps. length gaps = Suc (length spans) \<and> weave gaps spans = text
            \<and> scanned (experience_rx nd) gaps spans)" for spans
  proof
    assume "spans = extract_experience nd text"
    then have s: "spans = finditer (experience_rx nd) None text"
      by (simp add: extract_experience_finditer)
    from finditer_scanned [OF bnd_free_experience_rx experience_rx_consuming, of nd None "text"]
    show "\<exists>gaps. length gaps = Suc (length spans) \<and> weave gaps spans = text
            \<and> scanned (experience_rx nd) gaps spans"
      unfolding s .
  next
    assume "\<exists>gaps. length gaps = Suc (length spans) \<and> weave gaps spans = text
            \<and> scanned (experience_rx nd) gaps spans"
    then obtain gaps where w: "weave gaps spans = text"
      and sc: "scanned (experience_rx nd) gaps spans"
      by blast
    from scanned_finditer [OF bnd_free_experience_rx experience_rx_consuming sc, of None] w
    show "spans = extract_experience nd text"
      by (simp add: extract_experience_finditer)
  qed
  then have scan: "\<forall>spans. spans = extract_experience nd text \<longleftrightarrow>
         (\<exists>gaps. length gaps = Suc (length spans) \<and> weave gaps spans = text
            \<and> scanned (experience_rx nd) gaps spans)"
    by blast
  have each: "\<forall>m\<in>set (extract_experience nd text).
      ustrip m = m \<and> fullmatch (experience_rx nd) m"
    unfolding extract_experience_finditer
    using finditer_experience_trimmed finditer_fullmatch [OF bnd_free_experience_rx]
    by blast
  from ex1 ex2 ex3 none scan each show ?thesis
    by (intro conjI)
qed

theorem extract_experience_spans_witness:
  "\<not> has_month_token (encode ''Python developer, 2019 - 2021'')
   \<and> extract_experience arabic_indic (encode ''Python developer, 2019 - 2021'') = []
   \<and> weave [encode ''Worked '', encode '' at X''] [encode ''June 2018 - present'']
       = encode ''Worked June 2018 - present at X''
   \<and> scanned (experience_rx arabic_indic) [encode ''Worked '', encode '' at X'']
        [encode ''June 2018 - present'']
   \<and> extract_experience arabic_indic (encode ''Worked June 2018 - present at X'')
       = [encode ''June 2018 - present'']
   \<and> ustrip (encode ''June 2018 - present'') = encode ''June 2018 - present''
   \<and> fullmatch (experience_rx arabic_indic) (encode ''June 2018 - present'')"
proof -
  let ?text = "encode ''Worked June 2018 - present at X''"
  let ?gaps = "[encode ''Worked '', encode '' at X'']"
  let ?spans = "[encode ''June 2018 - present'']"
  have h: "\<not> has_month_token (encode ''Python developer, 2019 - 2021'')"
    by (simp add: month_token_at_def starts_with_ci_def experience_defs)
  from h extract_experience_spans [of arabic_indic "encode ''Python developer, 2019 - 2021''"]
  have n: "extract_experience arabic_indic (encode ''Python developer, 2019 - 2021'') = []"
    by blast
  have w: "weave ?gaps ?spans = ?text"
    by (simp add: encode_def)
  have sc: "scanned (experience_rx arabic_indic) ?gaps ?spans"
    by (simp add: first_match_def experience_defs arabic_indic_def)
  from extract_experience_spans [of arabic_indic ?text]
  have iff: "\<forall>spans. spans = extract_experience arabic_indic ?text \<longleftrightarrow>
         (\<exists>gaps. length gaps = Suc (length spans) \<and> weave gaps spans = ?text
            \<and> scanned (experience_rx arabic_indic) gaps spans)"
    and each: "\<forall>m\<in>set (extract_experience arabic_indic ?text).
      ustrip m = m \<and> fullmatch (experience_rx arabic_indic) m"
    by blast+
  have "length ?gaps = Suc (length ?spans)"
    by simp
  with w sc iff have e: "extract_experience arabic_indic ?text = ?spans"
    by metis
  with each have "ustrip (encode ''June 2018 - present'') = encode ''June 2018 - present''
      \<and> fullmatch (experience_rx arabic_indic) (encode ''June 2018 - present'')"
    by simp
  with h n w sc e show ?thesis
    by blast
qed


section \<open>The parser: entities are listed once\<close>

text \<open>No phrase of the ruler's table has two labels.\<close>

lemma patterns_phrases_distinct: "distinct (map snd patterns)"
  by (simp add: patterns_def)

lemma count_list_distinct:
  "distinct xs \<Longrightarrow> count_list xs t = (if t \<in> set xs then 1 else 0)"
  by (induction xs) auto

lemma set_iteration_count:
  assumes "set_iteration list_set"
  shows "count_list (list_set xs) t = (if t \<in> set xs then 1 else 0)"
proof -
  from assms have d: "distinct (list_set xs)" and s: "set (list_set xs) = set xs"
    by (simp_all add: set_iteration_def)
  from d have "count_list (list_set xs) t = (if t \<in> set (list_set xs) then 1 else 0)"
    by (rule count_list_distinct)
  with s show ?thesis by simp
qed

lemma set_iteration_remdups: "set_iteration remdups"
  by (simp add: set_iteration_def)


text \<open>
  Claim C7. Whatever entities the pipeline returns for the normalized text, and in
  whatever order a set is iterated, \<open>parse_resume\<close> lists a text once under \<open>skills\<close> when
  some entity labelled \<open>SKILL\<close> has that text, however often, and not at all otherwise;
  the same holds for \<open>education\<close> and \<open>DEGREE\<close>. So a resume in which the pipeline
  tags \<open>Python\<close> twice has the one skill \<open>Python\<close>.
\<close>

theorem parse_resume_deduplicates:
  assumes "set_iteration list_set"
  shows "distinct (skills (parse_resume list_set nd self pages))
     \<and> distinct (education (parse_resume list_set nd self pages))
     \<and> count_list (skills (parse_resume list_set nd self pages)) t =
         (if \<exists>ent\<in>set (nlp self (clean_text (extract_text pages))).
               ent_text ent = t \<and> ent_label ent = ''SKILL'' then 1 else 0)
     \<and> count_list (education (parse_resume list_set nd self pages)) t =
         (if \<exists>ent\<in>set (nlp self (clean_text (extract_text pages))).
               ent_text ent = t \<and> ent_label ent = ''DEGREE'' then 1 else 0)"
proof -
  let ?ents = "nlp self (clean_text (extract_text pages))"
  have sk: "skills (parse_resume list_set nd self pages)
      = list_set [ent_text ent. ent \<leftarrow> ?ents, ent_label ent = ''SKILL'']"
    by (simp add: parse_resume_def Let_def)
  have ed: "education (parse_resume list_set nd self pages)
      = list_set [ent_text ent. ent \<leftarrow> ?ents, ent_label ent = ''DEGREE'']"
    by (simp add: parse_resume_def Let_def)
  have m: "\<And>l. (t \<in> set [ent_text ent. ent \<leftarrow> ?ents, ent_label ent = l])
      = (\<exists>ent\<in>set ?ents. ent_text ent = t \<and> ent_label ent = l)"
    by auto
  from assms have "distinct (skills (parse_resume list_set nd self pages))"
    and "distinct (education (parse_resume list_set nd self pages))"
    unfolding sk ed by (simp_all add: set_iteration_def)
  moreover have "count_list (skills (parse_resume list_set nd self pages)) t =
         (if \<exists>ent\<in>set ?ents. ent_text ent = t \<and> ent_label ent = ''SKILL'' then 1 else 0)"
    unfolding sk set_iteration_count [OF assms] m ..
  moreover have "count_list (education (parse_resume list_set nd self pages)) t =
         (if \<exists>ent\<in>set ?ents. ent_text ent = t \<and> ent_label ent = ''DEGREE'' then 1 else 0)"
    unfolding ed set_iteration_count [OF assms] m ..
  ultimately show ?thesis by blast
qed

theorem parse_resume_deduplicates_witness:
  "set_iteration remdups
   \<and> skills (parse_resume remdups arabic_indic example_parser [''Python Python'']) = [''Python'']
   \<and> count_list (skills (parse_resume remdups arabic_indic example_parser [''Python Python'']))
        ''Python'' = 1"
  using parse_resume_deduplicates [OF set_iteration_remdups, of arabic_indic example_parser
      "[''Python Python'']" "''Python''"]
  by (simp add: set_iteration_remdups example_parser_def python_twice_def parse_resume_def Let_def)

section \<open>The ranker\<close>

text \<open>A blank job description has no token.\<close>

lemma token_rx_needs_word:
  "rx_match token_rx (p, []) = []"
  "\<not> isword c \<Longrightarrow> rx_match token_rx (p, c # t) = []"
  by (simp_all add: token_rx_def plus_def)

lemma finditer_token_none:
  "\<forall>c\<in>set s. \<not> isword c \<Longrightarrow> finditer token_rx p s = []"
  by (induction s arbitrary: p) (simp_all add: token_rx_needs_word)

lemma build_analyzer_blank: "strip doc = [] \<Longrightarrow> build_analyzer doc = []"
proof -
  assume "strip doc = []"
  then have sp: "\<forall>c\<in>set doc. isspace c"
    by (simp add: strip_empty_iff)
  then have "lower doc = doc"
    by (simp add: lower_def lower_char_isspace map_idI)
  moreover from sp have "\<forall>c\<in>set doc. \<not> isword c"
    by (simp add: isspace_not_isword)
  ultimately show ?thesis
    by (simp add: build_analyzer_def finditer_token_none)
qed


text \<open>
  Claim C1. For every sequence of resumes and every scoring kernel, a job description
  that is empty after \<open>strip()\<close> makes \<open>rank_resumes\<close> fail: \<open>fit_transform\<close> raises the
  \<open>ValueError\<close> of the empty vocabulary (the invalid-input error of the ranker), and it does
  so before the loop, with no score computed.
\<close>

theorem rank_resumes_blank_job_description:
  "strip job_description = [] \<Longrightarrow>
   rank_resumes cosine_similarity self resumes job_description =
     (Inl (ValueError ''empty vocabulary; perhaps the documents only contain stop words''), 0)"
  by (simp add: rank_resumes_def fit_transform_def build_analyzer_blank)

theorem rank_resumes_blank_job_description_witness:
  "strip ''  '' = []
   \<and> rank_resumes cosine_exact example_parser [resume_A, resume_B] ''  '' = (Inl (ValueError ''empty vocabulary; perhaps the documents only contain stop words''), 0)"
proof -
  have h: "strip ''  '' = []"
    by (simp add: strip_def isspace_def code_def)
  show ?thesis
    using h rank_resumes_blank_job_description [OF h] by simp
qed

text \<open>Without a token in the job description, blank or not, the vectorizer has an empty
  vocabulary and \<open>fit_transform\<close> raises.\<close>

lemma rank_resumes_tokenless:
  "build_analyzer jd = [] \<Longrightarrow>
   rank_resumes cs self resumes jd =
     (Inl (ValueError ''empty vocabulary; perhaps the documents only contain stop words''), 0)"
  by (simp add: rank_resumes_def fit_transform_def)

text \<open>With a token in the job description the vectorizer is fitted and every resume is
  scored once, in the order of the input.\<close>

lemma score_loop_eq:
  "score_loop cs v jv rs acc = acc @ map (\<lambda>r. cs jv (transform v (raw_text r))) rs"
  by (induction rs arbitrary: acc) simp_all

lemma fit_transform_accepts:
  "build_analyzer doc \<noteq> [] \<Longrightarrow>
   fit_transform doc =
     Inr (\<lparr>vocabulary = sort (remdups (build_analyzer doc))\<rparr>,
          map (count_list (build_analyzer doc)) (sort (remdups (build_analyzer doc))))"
proof -
  assume "build_analyzer doc \<noteq> []"
  then have "set (sort (remdups (build_analyzer doc))) \<noteq> {}"
    by simp
  then have "sort (remdups (build_analyzer doc)) \<noteq> []"
    by (metis set_empty)
  then show ?thesis
    by (simp add: fit_transform_def Let_def)
qed

lemma rank_resumes_accepts:
  assumes "build_analyzer jd \<noteq> []"
  shows "\<exists>v job_vec. fit_transform jd = Inr (v, job_vec) \<and>
     rank_resumes cs self resumes jd =
     (Inr (sorted_reverse snd (zip resumes (map (\<lambda>r. cs job_vec (transform v (raw_text r))) resumes))),
      length resumes)"
  using assms by (simp add: rank_resumes_def fit_transform_accepts score_loop_eq)

lemma sorted_reverse_descending:
  "sorted_wrt (\<lambda>a b. key b \<le> key a) (sorted_reverse key xs)"
proof -
  have "sorted (map (\<lambda>x. - key x) (sort_key (\<lambda>x. - key x) xs))"
    by (rule sorted_sort_key)
  then show ?thesis
    by (simp add: sorted_reverse_def sorted_map)
qed

lemma sorted_reverse_stable:
  "filter (\<lambda>a. key a = k) (sorted_reverse key xs) = filter (\<lambda>a. key a = k) xs"
  using sort_key_stable [of "\<lambda>x. - key x" "- k" xs]
  by (simp add: sorted_reverse_def)

lemma mset_sorted_reverse: "mset (sorted_reverse key xs) = mset xs"
  by (simp add: sorted_reverse_def)


text \<open>
  When the job description has a token, the result is as claim C4 describes it: the
  resumes paired with their scores, sorted by score in descending order, the pairs of
  any one score in the order of the input.
\<close>

lemma rank_resumes_descending_stable:
  assumes "build_analyzer job_description \<noteq> []"
  shows "\<exists>v job_vec scores ranked.
     fit_transform job_description = Inr (v, job_vec)
     \<and> scores = map (\<lambda>r. cosine_similarity job_vec (transform v (raw_text r))) resumes
     \<and> rank_resumes cosine_similarity self resumes job_description = (Inr ranked, length resumes)
     \<and> sorted_wrt (\<lambda>a b. snd b \<le> snd a) ranked
     \<and> (\<forall>k. filter (\<lambda>a. snd a = k) ranked = filter (\<lambda>a. snd a = k) (zip resumes scores))"
proof -
  from rank_resumes_accepts [OF assms, of cosine_similarity self resumes]
  obtain v job_vec where fit: "fit_transform job_description = Inr (v, job_vec)"
    and run: "rank_resumes cosine_similarity self resumes job_description =
      (Inr (sorted_reverse snd (zip resumes (map (\<lambda>r. cosine_similarity job_vec (transform v (raw_text r))) resumes))),
       length resumes)"
    by blast
  let ?scores = "map (\<lambda>r. cosine_similarity job_vec (transform v (raw_text r))) resumes"
  have "sorted_wrt (\<lambda>a b. snd b \<le> snd a) (sorted_reverse snd (zip resumes ?scores))"
    by (rule sorted_reverse_descending)
  moreover have "\<forall>k. filter (\<lambda>a. snd a = k) (sorted_reverse snd (zip resumes ?scores))
      = filter (\<lambda>a. snd a = k) (zip resumes ?scores)"
    by (simp add: sorted_reverse_stable)
  ultimately show ?thesis
    using fit run by simp
qed

text \<open>
  Claim C4 promises the sorted result for every job description that is not empty, and
  \<open>main\<close> calls the ranker for every job description that \<open>strip()\<close> does not empty. Such a
  job description can be without a token (a run of two or more word characters): \<open>C\<close>
  passes the guard of \<open>main\<close>, the vectorizer raises the \<open>ValueError\<close> of the empty
  vocabulary, which nothing catches, and no ranking is returned.
\<close>

theorem rank_resumes_rejects_single_letter:
  "strip ''C'' = ''C''
   \<and> build_analyzer ''C'' = []
   \<and> rank_resumes cosine_similarity_f64 example_parser [resume_A, resume_B] ''C''
       = (Inl (ValueError ''empty vocabulary; perhaps the documents only contain stop words''), 0)
   \<and> main_ranking cosine_similarity_f64 example_parser [resume_A, resume_B] ''C''
       = Some (Inl (ValueError ''empty vocabulary; perhaps the documents only contain stop words''), 0)"
proof -
  have s: "strip ''C'' = ''C''"
    by code_simp
  have b: "build_analyzer ''C'' = []"
    by code_simp
  then have "fit_transform ''C'' = Inl (ValueError ''empty vocabulary; perhaps the documents only contain stop words'')"
    by (simp add: fit_transform_def)
  with s b show ?thesis
    by (simp add: rank_resumes_def main_ranking_def)
qed




section \<open>The scores in float64\<close>

text \<open>
  The value of a float64 as a power of two, and the length of an integer in bits.
\<close>

declare bitlength.simps [simp del]

lemma valof_powi: "valof f = real_of_int (fst f) * 2 powi (snd f)"
  by (cases "0 \<le> snd f") (simp_all add: valof_def power_int_def field_simps)

lemma bitlength_nonpos: "n \<le> 0 \<Longrightarrow> bitlength n = 0"
  by (simp add: bitlength.simps [of n])

lemma bitlength_bounds:
  "0 < n \<Longrightarrow> 1 \<le> bitlength n \<and> 2 ^ nat (bitlength n - 1) \<le> n \<and> n < 2 ^ nat (bitlength n)"
proof (induction n rule: bitlength.induct)
  case (1 n)
  show ?case
  proof (cases "n div 2 \<le> 0")
    case True
    with "1.prems" have "n = 1" by linarith
    then show ?thesis
      by (simp add: bitlength.simps [of 1] bitlength_nonpos)
  next
    case False
    then have h: "0 < n div 2" by simp
    from "1.prems" have "\<not> n \<le> 0" by simp
    from "1.IH" [OF this h] have b: "1 \<le> bitlength (n div 2)"
      and lo: "2 ^ nat (bitlength (n div 2) - 1) \<le> n div 2"
      and hi: "n div 2 < 2 ^ nat (bitlength (n div 2))"
      by simp_all
    have e: "bitlength n = 1 + bitlength (n div 2)"
      using "1.prems" by (simp add: bitlength.simps [of n])
    from b have n1: "nat (bitlength (n div 2)) = Suc (nat (bitlength (n div 2) - 1))"
      by simp
    have n2: "nat (1 + bitlength (n div 2)) = Suc (nat (bitlength (n div 2)))"
      using b by simp
    have "2 ^ nat (bitlength (n div 2)) \<le> n"
      using lo unfolding n1 by simp
    moreover have "n < 2 ^ nat (1 + bitlength (n div 2))"
      using hi unfolding n2 by simp
    ultimately show ?thesis
      using b e by simp
  qed
qed

text \<open>
  Rounding a quotient to the nearest integer, ties to even: the result is within one half
  of the quotient and keeps its scale.
\<close>

lemma round_nearest:
  fixes num den K :: int
  assumes den: "0 < den" and lo: "K * den \<le> num" and hi: "num < 2 * K * den"
  defines "m \<equiv> (if den < 2 * (num mod den) \<or> (2 * (num mod den) = den \<and> odd (num div den))
                 then num div den + 1 else num div den)"
  shows "K \<le> m" and "m \<le> 2 * K"
    and "\<bar>real_of_int m - real_of_int num / real_of_int den\<bar> \<le> 1 / 2"
proof -
  define m0 where "m0 = num div den"
  define r where "r = num mod den"
  have r: "0 \<le> r" "r < den"
    using den by (simp_all add: r_def)
  have split: "num = den * m0 + r"
    by (simp add: m0_def r_def)
  have m_eq: "m = (if den < 2 * r \<or> (2 * r = den \<and> odd m0) then m0 + 1 else m0)"
    by (simp add: m_def m0_def r_def)
  have "den * (m0 + 1) = den * m0 + den"
    by (simp add: algebra_simps)
  with lo split r have "den * K < den * (m0 + 1)"
    by (simp add: mult.commute)
  with den have "K < m0 + 1"
    by (simp only: mult_less_cancel_left_pos)
  then have m0_lo: "K \<le> m0"
    by simp
  have "den * m0 \<le> num"
    using r(1) split by linarith
  with hi have "den * m0 < den * (2 * K)"
    by (simp add: mult.commute)
  with den have m0_hi: "m0 < 2 * K"
    by (simp only: mult_less_cancel_left_pos)
  from m0_lo show "K \<le> m"
    by (simp add: m_eq)
  from m0_hi show "m \<le> 2 * K"
    by (simp add: m_eq)
  have q: "real_of_int num / real_of_int den = real_of_int m0 + real_of_int r / real_of_int den"
  proof -
    have "real_of_int num = real_of_int den * real_of_int m0 + real_of_int r"
      by (metis of_int_add of_int_mult split)
    then show ?thesis
      using den by (simp add: field_simps)
  qed
  have r01: "0 \<le> real_of_int r / real_of_int den" "real_of_int r / real_of_int den < 1"
    using r den by simp_all
  show "\<bar>real_of_int m - real_of_int num / real_of_int den\<bar> \<le> 1 / 2"
  proof (cases "den < 2 * r \<or> (2 * r = den \<and> odd m0)")
    case True
    then have "den \<le> 2 * r" by auto
    then have "real_of_int den \<le> 2 * real_of_int r"
      by (metis of_int_le_iff of_int_mult of_int_numeral)
    with den have "1 / 2 \<le> real_of_int r / real_of_int den"
      by (simp add: field_simps)
    moreover from True have "real_of_int m = real_of_int m0 + 1"
      by (simp add: m_eq)
    ultimately show ?thesis
      using q r01 by simp
  next
    case False
    then have "2 * r \<le> den" by auto
    then have "2 * real_of_int r \<le> real_of_int den"
      by (metis of_int_le_iff of_int_mult of_int_numeral)
    with den have "real_of_int r / real_of_int den \<le> 1 / 2"
      by (simp add: field_simps)
    moreover from False have "real_of_int m = real_of_int m0"
      by (simp add: m_eq)
    ultimately show ?thesis
      using q r01 by simp
  qed
qed

text \<open>
  \<open>round_ratio\<close> scales the quotient into 53 bits before it rounds: the result is normal and
  differs from the exact value by at most the fraction \<open>2 ^ -53\<close> of it.
\<close>

lemma powi_2_pos: "0 < (2::real) powi k"
  by simp

lemma powi2_diff: "(2::real) powi a / 2 powi b = 2 powi (a - b)"
  by (simp add: power_int_diff)

lemma powi2_add: "(2::real) powi a * 2 powi b = 2 powi (a + b)"
  by (simp add: power_int_add)

lemma powi2_numeral: "(2::real) powi (numeral n) = 2 ^ numeral n"
  by (simp add: power_int_def)

lemma scaled_ratio:
  fixes p q :: int
  assumes "0 < p" "0 < q"
  defines "k \<equiv> 53 - (bitlength p - bitlength q)"
  defines "num \<equiv> (if 0 \<le> k then p * 2 ^ nat k else p)"
  defines "den \<equiv> (if 0 \<le> k then q else q * 2 ^ nat (- k))"
  shows "0 < den"
    and "real_of_int num / real_of_int den = real_of_int p / real_of_int q * 2 powi k"
    and "2 ^ 52 * den < num" and "num < 2 ^ 54 * den"
proof -
  let ?bp = "bitlength p" and ?bq = "bitlength q"
  from bitlength_bounds [OF assms(1)] have bp: "1 \<le> ?bp"
    and plo: "2 ^ nat (?bp - 1) \<le> p" and phi: "p < 2 ^ nat ?bp"
    by simp_all
  from bitlength_bounds [OF assms(2)] have bq: "1 \<le> ?bq"
    and qlo: "2 ^ nat (?bq - 1) \<le> q" and qhi: "q < 2 ^ nat ?bq"
    by simp_all
  show den: "0 < den"
    using assms(2) by (simp add: den_def)
  show ratio: "real_of_int num / real_of_int den = real_of_int p / real_of_int q * 2 powi k"
  proof (cases "0 \<le> k")
    case True
    then have "(2::real) powi k = 2 ^ nat k"
      by (simp add: power_int_def)
    with True show ?thesis
      by (simp add: num_def den_def)
  next
    case False
    then have "(2::real) powi k = 1 / 2 ^ nat (- k)"
      by (simp add: power_int_def field_simps)
    with False show ?thesis
      by (simp add: num_def den_def)
  qed
  have rp: "real_of_int p < 2 powi ?bp" "2 powi (?bp - 1) \<le> real_of_int p"
  proof -
    have "real_of_int p < real_of_int (2 ^ nat ?bp)"
      using phi by (simp only: of_int_less_iff)
    then show "real_of_int p < 2 powi ?bp"
      using bp by (simp add: power_int_def)
    have "real_of_int (2 ^ nat (?bp - 1)) \<le> real_of_int p"
      using plo by (simp only: of_int_le_iff)
    then show "2 powi (?bp - 1) \<le> real_of_int p"
      using bp by (simp add: power_int_def)
  qed
  have rq: "real_of_int q < 2 powi ?bq" "2 powi (?bq - 1) \<le> real_of_int q"
  proof -
    have "real_of_int q < real_of_int (2 ^ nat ?bq)"
      using qhi by (simp only: of_int_less_iff)
    then show "real_of_int q < 2 powi ?bq"
      using bq by (simp add: power_int_def)
    have "real_of_int (2 ^ nat (?bq - 1)) \<le> real_of_int q"
      using qlo by (simp only: of_int_le_iff)
    then show "2 powi (?bq - 1) \<le> real_of_int q"
      using bq by (simp add: power_int_def)
  qed
  have q0: "0 < real_of_int q" and p0: "0 < real_of_int p"
    using assms by simp_all
  have up: "real_of_int p / real_of_int q * 2 powi k < 2 ^ 54"
  proof -
    have "real_of_int p / real_of_int q < 2 powi ?bp / 2 powi (?bq - 1)"
      using rp(1) rq(2) q0 p0 by (intro frac_less) simp_all
    also have "\<dots> = 2 powi (?bp - (?bq - 1))"
      by (rule powi2_diff)
    finally have "real_of_int p / real_of_int q * 2 powi k < 2 powi (?bp - (?bq - 1)) * 2 powi k"
      by (rule mult_strict_right_mono) (rule powi_2_pos)
    also have "\<dots> = 2 powi (?bp - (?bq - 1) + k)"
      by (rule powi2_add)
    also have "?bp - (?bq - 1) + k = 54"
      by (simp add: k_def)
    finally show ?thesis
      by (simp only: powi2_numeral)
  qed
  have low: "2 ^ 52 < real_of_int p / real_of_int q * 2 powi k"
  proof -
    have "2 powi (?bp - 1) / 2 powi ?bq < real_of_int p / real_of_int q"
      using rp(2) rq(1) q0 p0 by (intro frac_less2) simp_all
    then have "2 powi (?bp - 1 - ?bq) < real_of_int p / real_of_int q"
      by (simp only: powi2_diff)
    then have "2 powi (?bp - 1 - ?bq) * 2 powi k < real_of_int p / real_of_int q * 2 powi k"
      by (rule mult_strict_right_mono) (rule powi_2_pos)
    moreover have "?bp - 1 - ?bq + k = 52"
      by (simp add: k_def)
    ultimately show ?thesis
      by (simp only: powi2_add powi2_numeral)
  qed
  from den have rden: "0 < real_of_int den" by simp
  from low have "2 ^ 52 < real_of_int num / real_of_int den"
    by (simp only: ratio)
  with rden have "2 ^ 52 * real_of_int den < real_of_int num"
    by (simp only: pos_less_divide_eq)
  then have "real_of_int (2 ^ 52 * den) < real_of_int num"
    by simp
  then show "2 ^ 52 * den < num"
    by (simp only: of_int_less_iff)
  from up have "real_of_int num / real_of_int den < 2 ^ 54"
    by (simp only: ratio)
  with rden have "real_of_int num < 2 ^ 54 * real_of_int den"
    by (simp only: pos_divide_less_eq)
  then have "real_of_int num < real_of_int (2 ^ 54 * den)"
    by simp
  then show "num < 2 ^ 54 * den"
    by (simp only: of_int_less_iff)
qed

lemma abs_diff_scaled:
  fixes a b c :: real
  shows "0 < c \<Longrightarrow> \<bar>a * c - b * c\<bar> = \<bar>a - b\<bar> * c"
  by (metis abs_mult abs_of_pos left_diff_distrib)

lemma round_ratio_spec:
  fixes p q e :: int
  assumes p: "0 < p" and q: "0 < q"
  shows "normal (round_ratio p q e)" and "0 < fst (round_ratio p q e)"
    and "\<bar>valof (round_ratio p q e) - real_of_int p / real_of_int q * 2 powi e\<bar>
          \<le> real_of_int p / real_of_int q * 2 powi e / 2 ^ 53"
proof -
  define k0 where "k0 = 53 - (bitlength p - bitlength q)"
  define num where "num = (if 0 \<le> k0 then p * 2 ^ nat k0 else p)"
  define den0 where "den0 = (if 0 \<le> k0 then q else q * 2 ^ nat (- k0))"
  define wide where "wide = (den0 * 2 ^ 53 \<le> num)"
  define den where "den = (if wide then 2 * den0 else den0)"
  define k where "k = (if wide then k0 - 1 else k0)"
  define m where "m = (if den < 2 * (num mod den) \<or> (2 * (num mod den) = den \<and> odd (num div den))
                 then num div den + 1 else num div den)"
  have rr: "round_ratio p q e = (if m = 2 ^ 53 then (2 ^ 52, e - k + 1) else (m, e - k))"
    using p unfolding round_ratio_def Let_def m_def k_def den_def wide_def den0_def num_def k0_def
    by simp
  from scaled_ratio [OF p q] have den0: "0 < den0"
    and ratio0: "real_of_int num / real_of_int den0 = real_of_int p / real_of_int q * 2 powi k0"
    and lo0: "2 ^ 52 * den0 < num" and hi0: "num < 2 ^ 54 * den0"
    unfolding num_def den0_def k0_def by simp_all
  have den: "0 < den"
    using den0 by (simp add: den_def)
  have lo: "2 ^ 52 * den \<le> num"
    using lo0 by (simp add: den_def wide_def)
  have hi: "num < 2 * 2 ^ 52 * den"
    using hi0 by (simp add: den_def wide_def)
  have ratio: "real_of_int num / real_of_int den = real_of_int p / real_of_int q * 2 powi k"
  proof (cases wide)
    case True
    have "real_of_int num / real_of_int den = real_of_int num / real_of_int den0 / 2"
      using True by (simp add: den_def)
    also have "\<dots> = real_of_int p / real_of_int q * 2 powi k0 / 2"
      by (simp only: ratio0)
    also have "\<dots> = real_of_int p / real_of_int q * (2 powi k0 / 2 powi 1)"
      by simp
    also have "\<dots> = real_of_int p / real_of_int q * 2 powi (k0 - 1)"
      by (simp only: powi2_diff)
    finally show ?thesis
      using True by (simp add: k_def)
  next
    case False
    with ratio0 show ?thesis
      by (simp add: den_def k_def)
  qed
  from round_nearest [OF den lo hi] have mlo: "2 ^ 52 \<le> m" and mhi: "m \<le> 2 * 2 ^ 52"
    and near: "\<bar>real_of_int m - real_of_int num / real_of_int den\<bar> \<le> 1 / 2"
    unfolding m_def by simp_all
  show "normal (round_ratio p q e)"
    using mlo mhi by (simp add: rr normal_def)
  show "0 < fst (round_ratio p q e)"
    using mlo by (simp add: rr)
  let ?rho = "real_of_int num / real_of_int den"
  let ?X = "real_of_int p / real_of_int q * 2 powi e"
  have v: "valof (round_ratio p q e) = real_of_int m * 2 powi (e - k)"
  proof (cases "m = 2 ^ 53")
    case True
    have "(2::real) powi (e - k + 1) = 2 powi (e - k) * 2"
      by (simp add: power_int_add)
    with True show ?thesis
      by (simp add: rr valof_powi)
  next
    case False
    then show ?thesis
      by (simp add: rr valof_powi)
  qed
  have x: "?X = ?rho * 2 powi (e - k)"
  proof -
    have "(2::real) powi e = 2 powi k * 2 powi (e - k)"
      by (simp only: powi2_add) simp
    then show ?thesis
      by (simp add: ratio)
  qed
  have rho: "2 ^ 52 \<le> ?rho"
  proof -
    from lo have "real_of_int (2 ^ 52 * den) \<le> real_of_int num"
      by (simp only: of_int_le_iff)
    then have "2 ^ 52 * real_of_int den \<le> real_of_int num"
      by simp
    with den show ?thesis
      by (simp only: pos_le_divide_eq of_int_0_less_iff)
  qed
  have "\<bar>valof (round_ratio p q e) - ?X\<bar> = \<bar>real_of_int m - ?rho\<bar> * 2 powi (e - k)"
    unfolding v x by (rule abs_diff_scaled) simp
  also have "\<dots> \<le> 1 / 2 * 2 powi (e - k)"
    using near by (rule mult_right_mono) simp
  also have "\<dots> \<le> ?rho / 2 ^ 53 * 2 powi (e - k)"
  proof (rule mult_right_mono)
    from rho show "1 / 2 \<le> ?rho / 2 ^ 53"
      by simp
  qed simp
  also have "\<dots> = ?X / 2 ^ 53"
    unfolding x by simp
  finally show "\<bar>valof (round_ratio p q e) - ?X\<bar> \<le> ?X / 2 ^ 53" .
qed

text \<open>So the rounded and the exact value are within the factor \<open>rnd\<close> of each other.\<close>

lemma rnd_ge_1: "1 \<le> rnd"
  by (simp add: rnd_def)

lemma rnd_pos: "0 < rnd"
  by (simp add: rnd_def)

lemma round_ratio_close:
  fixes p q e :: int
  assumes p: "0 < p" and q: "0 < q"
  shows "valof (round_ratio p q e) \<le> rnd * (real_of_int p / real_of_int q * 2 powi e)"
    and "real_of_int p / real_of_int q * 2 powi e \<le> rnd * valof (round_ratio p q e)"
proof -
  define X where "X = real_of_int p / real_of_int q * 2 powi e"
  define v where "v = valof (round_ratio p q e)"
  from round_ratio_spec(3) [OF p q, of e] have a: "\<bar>v - X\<bar> \<le> X / 2 ^ 53"
    by (simp add: X_def v_def)
  have X0: "0 \<le> X"
    using p q by (simp add: X_def)
  from a have up: "v - X \<le> X / 2 ^ 53" and dn: "- (v - X) \<le> X / 2 ^ 53"
    by (simp_all only: abs_le_iff)
  have r: "rnd * X = X + X / 2 ^ 52"
    by (simp add: rnd_def algebra_simps)
  from X0 have "X / 2 ^ 53 \<le> X / 2 ^ 52"
    by (simp add: field_simps)
  with up have "v \<le> rnd * X"
    unfolding r by linarith
  then show "valof (round_ratio p q e) \<le> rnd * (real_of_int p / real_of_int q * 2 powi e)"
    by (simp add: X_def v_def)
  from dn have "X - X / 2 ^ 53 \<le> v"
    by linarith
  then have "rnd * (X - X / 2 ^ 53) \<le> rnd * v"
    using rnd_pos by (simp only: mult_le_cancel_left_pos)
  moreover from X0 have "X \<le> rnd * (X - X / 2 ^ 53)"
    by (simp add: rnd_def algebra_simps)
  ultimately have "X \<le> rnd * v"
    by linarith
  then show "real_of_int p / real_of_int q * 2 powi e \<le> rnd * valof (round_ratio p q e)"
    by (simp add: X_def v_def)
qed

lemma zero_less_mult_iff_pos:
  fixes a c :: real
  shows "0 < c \<Longrightarrow> 0 < a * c \<longleftrightarrow> 0 < a"
  by (simp add: zero_less_mult_iff less_asym)

lemma round_ratio_zero: "round_ratio 0 q e = (0, 0)"
  by (simp add: round_ratio_def)

lemma normal_zero: "normal (0, 0)"
  by (simp add: normal_def)

lemma valof_zero: "valof (0, e) = 0"
  by (simp add: valof_powi)

lemma normal_nonneg: "normal f \<Longrightarrow> 0 \<le> fst f"
  by (auto simp: normal_def)

lemma valof_nonneg: "normal f \<Longrightarrow> 0 \<le> valof f"
  by (simp add: valof_powi normal_nonneg)

lemma valof_pos_iff: "0 < valof f \<longleftrightarrow> 0 < fst f"
proof -
  have "0 < (2::real) powi snd f"
    by simp
  then have "0 < real_of_int (fst f) * 2 powi snd f \<longleftrightarrow> 0 < real_of_int (fst f)"
    by (rule zero_less_mult_iff_pos)
  then show ?thesis
    by (simp add: valof_powi)
qed

lemma valof_eq_0_iff: "valof f = 0 \<longleftrightarrow> fst f = 0"
  by (simp add: valof_powi)

text \<open>The operations on normal numbers.\<close>

lemma fmul_close:
  assumes "normal x" "normal y"
  shows "normal (fmul x y)
    \<and> valof (fmul x y) \<le> rnd * (valof x * valof y)
    \<and> valof x * valof y \<le> rnd * valof (fmul x y)"
proof (cases "fst x * fst y = 0")
  case True
  then have f0: "fmul x y = (0, 0)"
    by (simp only: fmul_def round_ratio_zero)
  from True have v0: "valof x * valof y = 0"
    by (auto simp: valof_powi)
  show ?thesis
    unfolding f0 v0 by (simp add: normal_zero valof_zero)
next
  case False
  from assms have nn: "0 \<le> fst x" "0 \<le> fst y"
    by (simp_all add: normal_nonneg)
  with False have pos: "0 < fst x * fst y"
    by (simp add: zero_less_mult_iff less_le)
  have X: "real_of_int (fst x * fst y) / real_of_int 1 * 2 powi (snd x + snd y) = valof x * valof y"
    by (simp add: valof_powi power_int_add)
  from round_ratio_spec(1) [OF pos, of 1 "snd x + snd y"]
  have "normal (fmul x y)"
    by (simp add: fmul_def)
  moreover from round_ratio_close [OF pos, of 1 "snd x + snd y"]
  have "valof (fmul x y) \<le> rnd * (valof x * valof y)"
    "valof x * valof y \<le> rnd * valof (fmul x y)"
    unfolding X by (simp_all add: fmul_def)
  ultimately show ?thesis
    by simp
qed

lemma pow_nat_powi: "0 \<le> d \<Longrightarrow> real_of_int (2 ^ nat d) = 2 powi d"
  by (simp add: power_int_def)

lemma scaled_valof:
  assumes "e \<le> snd x"
  shows "real_of_int (fst x * 2 ^ nat (snd x - e)) * 2 powi e = valof x"
proof -
  from assms have "0 \<le> snd x - e"
    by simp
  then have "real_of_int (2 ^ nat (snd x - e)) = 2 powi (snd x - e)"
    by (rule pow_nat_powi)
  then have "real_of_int (fst x * 2 ^ nat (snd x - e)) * 2 powi e
      = real_of_int (fst x) * (2 powi (snd x - e) * 2 powi e)"
    by simp
  also have "\<dots> = real_of_int (fst x) * 2 powi (snd x - e + e)"
    by (simp only: powi2_add)
  finally show ?thesis
    by (simp add: valof_powi)
qed

lemma fadd_close:
  assumes "normal x" "normal y"
  shows "normal (fadd x y)
    \<and> valof (fadd x y) \<le> rnd * (valof x + valof y)
    \<and> valof x + valof y \<le> rnd * valof (fadd x y)"
proof -
  define e where "e = min (snd x) (snd y)"
  define p where "p = fst x * 2 ^ nat (snd x - e) + fst y * 2 ^ nat (snd y - e)"
  have f: "fadd x y = round_ratio p 1 e"
    by (simp add: fadd_def Let_def p_def e_def)
  from assms have nn: "0 \<le> fst x" "0 \<le> fst y"
    by (simp_all add: normal_nonneg)
  have X: "real_of_int p * 2 powi e = valof x + valof y"
  proof -
    have "real_of_int p * 2 powi e = real_of_int (fst x * 2 ^ nat (snd x - e)) * 2 powi e
        + real_of_int (fst y * 2 ^ nat (snd y - e)) * 2 powi e"
      unfolding p_def by (simp only: of_int_add distrib_right)
    also have "\<dots> = valof x + valof y"
      by (simp only: scaled_valof e_def min.cobounded1 min.cobounded2)
    finally show ?thesis .
  qed
  have p0: "0 \<le> p"
    using nn by (simp add: p_def)
  show ?thesis
  proof (cases "p = 0")
    case True
    then have "fadd x y = (0, 0)"
      by (simp only: f round_ratio_zero)
    moreover from True X have "valof x + valof y = 0"
      by simp
    ultimately show ?thesis
      by (simp add: normal_zero valof_zero)
  next
    case False
    with p0 have pos: "0 < p" by simp
    from round_ratio_spec(1) [OF pos, of 1 e] have "normal (fadd x y)"
      by (simp add: f)
    moreover from round_ratio_close [OF pos, of 1 e]
    have "valof (fadd x y) \<le> rnd * (valof x + valof y)"
      "valof x + valof y \<le> rnd * valof (fadd x y)"
      by (simp_all add: f X)
    ultimately show ?thesis
      by simp
  qed
qed

lemma fdiv_close:
  assumes "normal x" "0 < fst y"
  shows "normal (fdiv x y)
    \<and> valof (fdiv x y) \<le> rnd * (valof x / valof y)
    \<and> valof x / valof y \<le> rnd * valof (fdiv x y)"
proof (cases "fst x = 0")
  case True
  then have "fdiv x y = (0, 0)"
    by (simp add: fdiv_def round_ratio_zero)
  moreover from True have "valof x = 0"
    by (simp add: valof_eq_0_iff)
  ultimately show ?thesis
    by (simp add: normal_zero valof_zero)
next
  case False
  with assms(1) have pos: "0 < fst x"
    using normal_nonneg [of x] by simp
  have X: "real_of_int (fst x) / real_of_int (fst y) * 2 powi (snd x - snd y) = valof x / valof y"
    by (simp add: valof_powi power_int_diff)
  from round_ratio_spec(1) [OF pos assms(2), of "snd x - snd y"] have "normal (fdiv x y)"
    by (simp add: fdiv_def)
  moreover from round_ratio_close [OF pos assms(2), of "snd x - snd y"]
  have "valof (fdiv x y) \<le> rnd * (valof x / valof y)"
    "valof x / valof y \<le> rnd * valof (fdiv x y)"
    unfolding X by (simp_all add: fdiv_def)
  ultimately show ?thesis
    by simp
qed

lemma normal_of_count: "normal (of_count n)"
proof (cases "n = 0")
  case True
  then show ?thesis
    by (simp add: of_count_def round_ratio_zero normal_zero)
next
  case False
  then have "0 < int n" by simp
  from round_ratio_spec(1) [OF this, of 1 0] show ?thesis
    by (simp add: of_count_def)
qed

lemma normal_fone: "normal fone"
  by (simp add: fone_def normal_def)

lemma normal_tfidf_row: "\<forall>f\<in>set (tfidf_row counts). normal f"
  using fmul_close [OF normal_of_count normal_fone]
  by (simp add: tfidf_row_def)

lemma of_count_zero: "of_count 0 = (0, 0)"
  by (simp add: of_count_def round_ratio_zero)

lemma fmul_zero_left: "fmul (0, e) y = (0, 0)"
  by (simp add: fmul_def round_ratio_zero)

text \<open>
  The integer square root is not too small, and so is the float64 square root (two
  factors \<open>rnd\<close> cover the truncation of the integer root and the rounding).
\<close>

lemma isqrt_from_upper:
  "0 \<le> a \<Longrightarrow> n < (a + 2 ^ Suc k) * (a + 2 ^ Suc k) \<Longrightarrow>
   0 \<le> isqrt_from k n a \<and> n < (isqrt_from k n a + 1) * (isqrt_from k n a + 1)"
proof (induction k arbitrary: a)
  case 0
  then show ?case
    by (simp add: algebra_simps)
next
  case (Suc k)
  let ?b = "a + 2 ^ Suc k"
  show ?case
  proof (cases "?b * ?b \<le> n")
    case True
    have "?b + 2 ^ Suc k = a + 2 ^ Suc (Suc k)"
      by simp
    with Suc.prems(2) have "n < (?b + 2 ^ Suc k) * (?b + 2 ^ Suc k)"
      by (simp only:)
    moreover from Suc.prems(1) have "0 \<le> ?b"
      by simp
    ultimately have "0 \<le> isqrt_from k n ?b \<and> n < (isqrt_from k n ?b + 1) * (isqrt_from k n ?b + 1)"
      by (rule Suc.IH [rotated])
    with True show ?thesis
      by simp
  next
    case False
    then have "n < ?b * ?b"
      by simp
    with Suc.prems(1) have "0 \<le> isqrt_from k n a \<and> n < (isqrt_from k n a + 1) * (isqrt_from k n a + 1)"
      by (rule Suc.IH)
    with False show ?thesis
      by simp
  qed
qed

lemma isqrt_upper:
  assumes "0 < n"
  shows "0 \<le> isqrt n \<and> n < (isqrt n + 1) * (isqrt n + 1)"
proof -
  let ?k = "nat (bitlength n)"
  from bitlength_bounds [OF assms] have "n < 2 ^ ?k"
    by simp
  also have "(2::int) ^ ?k \<le> 2 ^ Suc ?k * 2 ^ Suc ?k"
  proof -
    have "(2::int) ^ ?k \<le> 2 ^ Suc ?k"
      by simp
    moreover have "(1::int) \<le> 2 ^ Suc ?k"
      by (rule one_le_power) simp
    ultimately have "(2::int) ^ ?k * 1 \<le> 2 ^ Suc ?k * 2 ^ Suc ?k"
      by (rule mult_mono) simp_all
    then show ?thesis
      by simp
  qed
  finally have "n < (0 + 2 ^ Suc ?k) * (0 + 2 ^ Suc ?k)"
    by simp
  with isqrt_from_upper [of 0 n ?k] show ?thesis
    by (simp add: isqrt_def)
qed

lemma fsqrt_close:
  assumes nx: "normal x" and px: "0 < fst x"
  shows "normal (fsqrt x) \<and> 0 < fst (fsqrt x) \<and> sqrt (valof x) \<le> rnd * rnd * valof (fsqrt x)"
proof -
  define j where "j = 58 + (snd x - 58) mod 2"
  define n where "n = fst x * 2 ^ nat j"
  define r where "r = isqrt n"
  define s :: int where "s = (if r * r = n then 0 else 1)"
  define t where "t = (snd x - j) div 2"
  define P :: real where "P = 2 powi t"
  have f: "fsqrt x = round_ratio (2 * r + s) 2 t"
    using px by (simp add: fsqrt_def Let_def j_def n_def r_def s_def t_def)
  from nx px have m: "2 ^ 52 \<le> fst x"
    by (auto simp: normal_def)
  have j58: "58 \<le> j"
    by (simp add: j_def)
  then have "58 \<le> nat j"
    by simp
  then have "(2::int) ^ 58 \<le> 2 ^ nat j"
    by (rule power_increasing) simp
  with m have "2 ^ 52 * 2 ^ 58 \<le> fst x * 2 ^ nat j"
    using px by (intro mult_mono) simp_all
  then have n110: "2 ^ 110 \<le> n"
    by (simp add: n_def)
  then have n0: "0 < n"
    by simp
  from isqrt_upper [OF n0] have r0: "0 \<le> r" and up: "n < (r + 1) * (r + 1)"
    by (simp_all add: r_def)
  have r55: "2 ^ 55 \<le> r"
  proof (rule ccontr)
    assume "\<not> 2 ^ 55 \<le> r"
    then have "r + 1 \<le> 2 ^ 55"
      by simp
    then have "(r + 1) * (r + 1) \<le> 2 ^ 55 * 2 ^ 55"
      using r0 by (intro mult_mono) simp_all
    with up n110 show False
      by simp
  qed
  have s01: "0 \<le> s"
    by (simp add: s_def)
  from r55 s01 have pos: "0 < 2 * r + s"
    by simp
  have P0: "0 < P"
    by (simp add: P_def)
  have "snd x = j + (t + t)"
    unfolding j_def t_def by presburger
  then have "valof x = real_of_int (fst x) * 2 powi (j + (t + t))"
    by (simp only: valof_powi)
  also have "\<dots> = real_of_int (fst x) * (2 powi j * (P * P))"
    by (simp only: powi2_add P_def)
  also have "(2::real) powi j = real_of_int (2 ^ nat j)"
  proof -
    from j58 have "0 \<le> j" by simp
    then show ?thesis
      by (rule pow_nat_powi [symmetric])
  qed
  finally have vx: "valof x = real_of_int n * (P * P)"
    by (simp add: n_def)
  have e1: "sqrt (valof x) = sqrt (real_of_int n) * P"
    using P0 by (simp add: vx real_sqrt_mult)
  have "sqrt (real_of_int n) \<le> real_of_int (r + 1)"
  proof (rule real_le_lsqrt)
    show "0 \<le> real_of_int (r + 1)"
      using r0 by simp
    from up have "real_of_int n \<le> real_of_int ((r + 1) * (r + 1))"
      by (simp only: of_int_le_iff less_imp_le)
    then show "real_of_int n \<le> (real_of_int (r + 1))\<^sup>2"
      by (simp add: power2_eq_square)
  qed
  moreover have "real_of_int (r + 1) \<le> rnd * real_of_int r"
  proof -
    from r55 have "real_of_int (2 ^ 55) \<le> real_of_int r"
      by (simp only: of_int_le_iff)
    then have "1 \<le> real_of_int r / 2 ^ 52"
      by simp
    then show ?thesis
      by (simp add: rnd_def algebra_simps)
  qed
  ultimately have "sqrt (real_of_int n) \<le> rnd * real_of_int r"
    by (rule order_trans)
  with P0 have e2: "sqrt (real_of_int n) * P \<le> rnd * real_of_int r * P"
    by (simp only: mult_le_cancel_right_pos)
  have "real_of_int r \<le> real_of_int (2 * r + s) / real_of_int 2"
    using s01 by simp
  with P0 have "real_of_int r * P \<le> real_of_int (2 * r + s) / real_of_int 2 * P"
    by (simp only: mult_le_cancel_right_pos)
  also have "\<dots> \<le> rnd * valof (fsqrt x)"
    using round_ratio_close(2) [OF pos, of 2 t] by (simp only: f P_def)
  finally have "rnd * (real_of_int r * P) \<le> rnd * (rnd * valof (fsqrt x))"
    using rnd_pos by (simp only: mult_le_cancel_left_pos)
  with e1 e2 have "sqrt (valof x) \<le> rnd * rnd * valof (fsqrt x)"
    by (simp add: mult.assoc)
  moreover from round_ratio_spec(1,2) [OF pos, of 2 t]
  have "normal (fsqrt x)" "0 < fst (fsqrt x)"
    by (simp_all add: f)
  ultimately show ?thesis
    by simp
qed

text \<open>
  The two loops: the sum of the squares of a row is not underestimated, and the sum of the
  products of two rows is not overestimated, by more than two factors \<open>rnd\<close> for each entry.
\<close>

lemma rnd_power_ge_1: "1 \<le> rnd ^ k"
  by (rule one_le_power) (rule rnd_ge_1)

lemma square_step:
  assumes "normal acc" "normal v"
  shows "normal (fadd acc (fmul v v))
     \<and> valof acc + valof v * valof v \<le> rnd ^ 2 * valof (fadd acc (fmul v v))"
proof -
  from fmul_close [OF assms(2) assms(2)] have nm: "normal (fmul v v)"
    and m: "valof v * valof v \<le> rnd * valof (fmul v v)"
    by simp_all
  from fadd_close [OF assms(1) nm] have na: "normal (fadd acc (fmul v v))"
    and a: "valof acc + valof (fmul v v) \<le> rnd * valof (fadd acc (fmul v v))"
    by simp_all
  have "valof acc \<le> rnd * valof acc"
    using valof_nonneg [OF assms(1)] rnd_ge_1 by (simp add: mult_le_cancel_right1)
  with m have "valof acc + valof v * valof v \<le> rnd * (valof acc + valof (fmul v v))"
    by (simp add: distrib_left)
  also have "\<dots> \<le> rnd * (rnd * valof (fadd acc (fmul v v)))"
    using a rnd_pos by (simp only: mult_le_cancel_left_pos)
  finally show ?thesis
    using na by (simp add: power2_eq_square mult.assoc)
qed

lemma sum_squares_lower:
  assumes "\<forall>v\<in>set x. normal v" "normal acc"
  shows "normal (foldl (\<lambda>acc v. fadd acc (fmul v v)) acc x)
     \<and> valof acc + (\<Sum>v\<leftarrow>x. valof v * valof v)
         \<le> rnd ^ (2 * length x) * valof (foldl (\<lambda>acc v. fadd acc (fmul v v)) acc x)"
  using assms
proof (induction x arbitrary: acc)
  case Nil
  then show ?case by simp
next
  case (Cons v x)
  let ?f = "\<lambda>acc v. fadd acc (fmul v v)"
  let ?acc = "fadd acc (fmul v v)"
  let ?S = "foldl ?f ?acc x"
  let ?sq = "\<Sum>v\<leftarrow>x. valof v * valof v"
  from Cons.prems have nv: "normal v" and nx: "\<forall>v\<in>set x. normal v"
    by simp_all
  from square_step [OF Cons.prems(2) nv] have na: "normal ?acc"
    and st: "valof acc + valof v * valof v \<le> rnd ^ 2 * valof ?acc"
    by simp_all
  from Cons.IH [OF nx na] have nS: "normal ?S"
    and ih: "valof ?acc + ?sq \<le> rnd ^ (2 * length x) * valof ?S"
    by simp_all
  have sq0: "0 \<le> ?sq"
    by (rule sum_list_nonneg) auto
  have "?sq \<le> rnd ^ 2 * ?sq"
    using sq0 rnd_power_ge_1 [of 2] by (simp add: mult_le_cancel_right1)
  with st have "valof acc + valof v * valof v + ?sq \<le> rnd ^ 2 * (valof ?acc + ?sq)"
    by (simp add: distrib_left)
  also have "\<dots> \<le> rnd ^ 2 * (rnd ^ (2 * length x) * valof ?S)"
    using ih rnd_pos by (simp only: mult_le_cancel_left_pos zero_less_power)
  also have "\<dots> = rnd ^ (2 * length (v # x)) * valof ?S"
    by (simp add: power_add power2_eq_square mult.assoc)
  finally show ?case
    using nS by (simp add: add.assoc)
qed

lemma dot_step:
  assumes "normal acc" "normal a" "normal b"
  shows "normal (fadd acc (fmul a b))
     \<and> valof (fadd acc (fmul a b)) \<le> rnd ^ 2 * (valof acc + valof a * valof b)"
proof -
  from fmul_close [OF assms(2) assms(3)] have nm: "normal (fmul a b)"
    and m: "valof (fmul a b) \<le> rnd * (valof a * valof b)"
    by simp_all
  from fadd_close [OF assms(1) nm] have na: "normal (fadd acc (fmul a b))"
    and a: "valof (fadd acc (fmul a b)) \<le> rnd * (valof acc + valof (fmul a b))"
    by simp_all
  have "valof acc \<le> rnd * valof acc"
    using valof_nonneg [OF assms(1)] rnd_ge_1 by (simp add: mult_le_cancel_right1)
  with m have "valof acc + valof (fmul a b) \<le> rnd * (valof acc + valof a * valof b)"
    by (simp add: distrib_left)
  then have "rnd * (valof acc + valof (fmul a b)) \<le> rnd * (rnd * (valof acc + valof a * valof b))"
    using rnd_pos by (simp only: mult_le_cancel_left_pos)
  with a show ?thesis
    using na by (simp add: power2_eq_square mult.assoc)
qed

lemma dot_upper:
  assumes "\<forall>(a, b)\<in>set ps. normal a \<and> normal b" "normal acc"
  shows "normal (foldl (\<lambda>acc (p, q). fadd acc (fmul p q)) acc ps)
     \<and> valof (foldl (\<lambda>acc (p, q). fadd acc (fmul p q)) acc ps)
         \<le> rnd ^ (2 * length ps) * (valof acc + (\<Sum>(a, b)\<leftarrow>ps. valof a * valof b))"
  using assms
proof (induction ps arbitrary: acc)
  case Nil
  then show ?case by simp
next
  case (Cons ab ps)
  obtain a b where ab: "ab = (a, b)"
    by (cases ab)
  let ?f = "\<lambda>acc (p, q). fadd acc (fmul p q)"
  let ?acc = "fadd acc (fmul a b)"
  let ?sum = "\<Sum>(a, b)\<leftarrow>ps. valof a * valof b"
  from Cons.prems ab have n: "normal a" "normal b"
    and nps: "\<forall>(a, b)\<in>set ps. normal a \<and> normal b"
    by simp_all
  from dot_step [OF Cons.prems(2) n] have na: "normal ?acc"
    and st: "valof ?acc \<le> rnd ^ 2 * (valof acc + valof a * valof b)"
    by simp_all
  from Cons.IH [OF nps na] have nS: "normal (foldl ?f ?acc ps)"
    and ih: "valof (foldl ?f ?acc ps) \<le> rnd ^ (2 * length ps) * (valof ?acc + ?sum)"
    by simp_all
  have s0: "0 \<le> ?sum"
  proof (rule sum_list_nonneg)
    fix t assume "t \<in> set (map (\<lambda>(a, b). valof a * valof b) ps)"
    then obtain c d where "(c, d) \<in> set ps" and "t = valof c * valof d"
      by auto
    with nps show "0 \<le> t"
      by (auto simp: valof_nonneg)
  qed
  have "?sum \<le> rnd ^ 2 * ?sum"
    using s0 rnd_power_ge_1 [of 2] by (simp add: mult_le_cancel_right1)
  with st have "valof ?acc + ?sum \<le> rnd ^ 2 * (valof acc + valof a * valof b + ?sum)"
    by (simp add: distrib_left)
  then have "rnd ^ (2 * length ps) * (valof ?acc + ?sum)
      \<le> rnd ^ (2 * length ps) * (rnd ^ 2 * (valof acc + valof a * valof b + ?sum))"
    using rnd_pos by (simp only: mult_le_cancel_left_pos zero_less_power)
  also have "\<dots> = rnd ^ (2 * length (ab # ps)) * (valof acc + (\<Sum>(a, b)\<leftarrow>ab # ps. valof a * valof b))"
    by (simp add: ab power_add power2_eq_square mult.assoc add.assoc)
  finally show ?case
    using ih nS by (simp add: ab)
qed

text \<open>
  \<open>l2_normalize\<close> maps every entry of a row to a normal number, a zero to a zero, and
  divides by the norm of the row up to \<open>length x + 3\<close> factors \<open>rnd\<close>.
\<close>

lemma sum_squares_nonneg: "0 \<le> (\<Sum>v\<leftarrow>x. valof v * valof v)"
  by (rule sum_list_nonneg) auto

lemma sum_squares_zero:
  assumes "(\<Sum>v\<leftarrow>x. valof v * valof v) = 0" "v \<in> set x"
  shows "valof v = 0"
proof -
  have "\<forall>t\<in>set (map (\<lambda>v. valof v * valof v) x). 0 \<le> t"
    by auto
  with assms(1) have "\<forall>t\<in>set (map (\<lambda>v. valof v * valof v) x). t = 0"
    by (simp only: sum_list_nonneg_eq_0_iff)
  with assms(2) have "valof v * valof v = 0"
    by simp
  then show ?thesis
    by simp
qed

lemma l2_normalize_spec:
  assumes nx: "\<forall>v\<in>set x. normal v"
  shows "\<exists>g. l2_normalize x = map g x
     \<and> (\<forall>v\<in>set x. normal (g v)
           \<and> valof (g v) * sqrt (\<Sum>v\<leftarrow>x. valof v * valof v) \<le> rnd ^ (length x + 3) * valof v
           \<and> (valof v = 0 \<longrightarrow> valof (g v) = 0))"
proof -
  define S where "S = foldl (\<lambda>acc v. fadd acc (fmul v v)) fzero x"
  let ?sq = "\<Sum>v\<leftarrow>x. valof v * valof v"
  let ?K = "rnd ^ (length x + 3)"
  have l2: "l2_normalize x = (if fst S = 0 then x else map (\<lambda>v. fdiv v (fsqrt S)) x)"
    by (simp add: l2_normalize_def S_def Let_def)
  have "normal fzero"
    by (simp add: fzero_def normal_zero)
  from sum_squares_lower [OF nx this] have nS: "normal S"
    and low: "?sq \<le> rnd ^ (2 * length x) * valof S"
    by (simp_all add: S_def fzero_def valof_zero)
  have K0: "0 \<le> ?K"
    using rnd_pos by simp
  show ?thesis
  proof (cases "fst S = 0")
    case True
    then have "valof S = 0"
      by (simp add: valof_eq_0_iff)
    with low sum_squares_nonneg [of x] have "?sq = 0"
      by simp
    then have "\<forall>v\<in>set x. normal (id v) \<and> valof (id v) * sqrt ?sq \<le> ?K * valof v
        \<and> (valof v = 0 \<longrightarrow> valof (id v) = 0)"
      using nx K0 by (simp add: valof_nonneg)
    moreover from True have "l2_normalize x = map id x"
      by (simp add: l2)
    ultimately show ?thesis
      by blast
  next
    case False
    with nS have pS: "0 < fst S"
      using normal_nonneg [of S] by simp
    define r where "r = fsqrt S"
    from fsqrt_close [OF nS pS] have nr: "normal r" and pr: "0 < fst r"
      and sr: "sqrt (valof S) \<le> rnd * rnd * valof r"
      by (simp_all add: r_def)
    from pr have vr: "0 < valof r"
      by (simp add: valof_pos_iff)
    have "sqrt ?sq \<le> sqrt (rnd ^ (2 * length x) * valof S)"
      using low by (simp only: real_sqrt_le_iff)
    also have "\<dots> = rnd ^ length x * sqrt (valof S)"
      using rnd_pos by (simp add: real_sqrt_mult power_mult real_sqrt_power power2_eq_square less_imp_le)
    also have "\<dots> \<le> rnd ^ length x * (rnd * rnd * valof r)"
      using sr rnd_pos by (simp only: mult_le_cancel_left_pos zero_less_power)
    also have "\<dots> = rnd ^ (length x + 2) * valof r"
      by (simp add: power_add power2_eq_square mult.assoc)
    finally have root: "sqrt ?sq \<le> rnd ^ (length x + 2) * valof r" .
    have each: "normal (fdiv v r) \<and> valof (fdiv v r) * sqrt ?sq \<le> ?K * valof v
        \<and> (valof v = 0 \<longrightarrow> valof (fdiv v r) = 0)" if v: "v \<in> set x" for v
    proof -
      from v nx have nv: "normal v" by simp
      from fdiv_close [OF nv pr] have nd: "normal (fdiv v r)"
        and d: "valof (fdiv v r) \<le> rnd * (valof v / valof r)"
        by simp_all
      have v0: "0 \<le> valof v" and d0: "0 \<le> valof (fdiv v r)"
        using nv nd by (simp_all add: valof_nonneg)
      have "valof (fdiv v r) * sqrt ?sq
          \<le> rnd * (valof v / valof r) * (rnd ^ (length x + 2) * valof r)"
        using d root d0 by (intro mult_mono) (simp_all add: sum_squares_nonneg)
      also have "\<dots> = ?K * valof v"
        using vr by (simp add: power_add power2_eq_square power3_eq_cube field_simps)
      finally have "valof (fdiv v r) * sqrt ?sq \<le> ?K * valof v" .
      moreover have "valof (fdiv v r) = 0" if "valof v = 0"
        using d d0 that by simp
      ultimately show ?thesis
        using nd by simp
    qed
    from False have "l2_normalize x = map (\<lambda>v. fdiv v r) x"
      by (simp add: l2 r_def)
    with each show ?thesis
      by blast
  qed
qed

text \<open>
  The product of two entries is at most the mean of their squares, so the sum of the
  products of two normalised rows is at most 1, up to the factors of the normalisations.
\<close>

lemma product_step:
  fixes A B K L p q p' q' :: real
  assumes A: "0 < A" and B: "0 < B" and K: "0 \<le> K" and L: "0 \<le> L"
    and p: "0 \<le> p" "0 \<le> q" "p * A \<le> K * q"
    and p': "0 \<le> p'" "0 \<le> q'" "p' * B \<le> L * q'"
  shows "2 * (A * B)\<^sup>2 * (p * p') \<le> K * L * (B\<^sup>2 * (q * q) + A\<^sup>2 * (q' * q'))"
proof -
  have "(p * A) * (p' * B) \<le> (K * q) * (L * q')"
  proof (rule mult_mono)
    show "p * A \<le> K * q" "p' * B \<le> L * q'"
      by fact+
    show "0 \<le> K * q"
      using K p(2) by simp
    show "0 \<le> p' * B"
      using B p'(1) by simp
  qed
  then have "(A * B) * ((p * A) * (p' * B)) \<le> (A * B) * ((K * q) * (L * q'))"
    using A B by (simp only: mult_le_cancel_left_pos mult_pos_pos)
  then have "2 * (A * B)\<^sup>2 * (p * p') \<le> K * L * (2 * (q * B) * (q' * A))"
    by (simp add: power2_eq_square algebra_simps)
  also have "\<dots> \<le> K * L * ((q * B)\<^sup>2 + (q' * A)\<^sup>2)"
  proof (rule mult_left_mono)
    have "0 \<le> (q * B - q' * A)\<^sup>2"
      by simp
    then show "2 * (q * B) * (q' * A) \<le> (q * B)\<^sup>2 + (q' * A)\<^sup>2"
      by (simp add: power2_diff)
    show "0 \<le> K * L"
      using K L by simp
  qed
  also have "\<dots> = K * L * (B\<^sup>2 * (q * q) + A\<^sup>2 * (q' * q'))"
    by (simp add: power2_eq_square algebra_simps)
  finally show ?thesis .
qed

lemma normalized_dot_bound:
  fixes A B K L :: real
  assumes A: "0 < A" and B: "0 < B" and K: "0 \<le> K" and L: "0 \<le> L"
    and x: "\<forall>u\<in>set x. 0 \<le> f' u \<and> 0 \<le> f u \<and> f' u * A \<le> K * f u"
    and y: "\<forall>v\<in>set y. 0 \<le> h' v \<and> 0 \<le> h v \<and> h' v * B \<le> L * h v"
  shows "2 * (A * B)\<^sup>2 * (\<Sum>(u, v)\<leftarrow>zip x y. f' u * h' v)
     \<le> K * L * (B\<^sup>2 * (\<Sum>u\<leftarrow>x. f u * f u) + A\<^sup>2 * (\<Sum>v\<leftarrow>y. h v * h v))"
  using x y
proof (induction x arbitrary: y)
  case Nil
  have "0 \<le> (\<Sum>v\<leftarrow>y. h v * h v)"
    by (rule sum_list_nonneg) auto
  then show ?case
    using K L A by simp
next
  case (Cons u x)
  have sx: "0 \<le> (\<Sum>u\<leftarrow>u # x. f u * f u)"
    by (rule sum_list_nonneg) auto
  show ?case
  proof (cases y)
    case Nil
    then show ?thesis
      using K L B sx by simp
  next
    case (Cons v y')
    from Cons.prems(1) have u: "0 \<le> f' u" "0 \<le> f u" "f' u * A \<le> K * f u"
      and xs: "\<forall>u\<in>set x. 0 \<le> f' u \<and> 0 \<le> f u \<and> f' u * A \<le> K * f u"
      by simp_all
    from Cons.prems(2) Cons have v: "0 \<le> h' v" "0 \<le> h v" "h' v * B \<le> L * h v"
      and ys: "\<forall>v\<in>set y'. 0 \<le> h' v \<and> 0 \<le> h v \<and> h' v * B \<le> L * h v"
      by simp_all
    from product_step [OF A B K L u v]
    have st: "2 * (A * B)\<^sup>2 * (f' u * h' v) \<le> K * L * (B\<^sup>2 * (f u * f u) + A\<^sup>2 * (h v * h v))" .
    from Cons.IH [OF xs ys]
    have ih: "2 * (A * B)\<^sup>2 * (\<Sum>(u, v)\<leftarrow>zip x y'. f' u * h' v)
       \<le> K * L * (B\<^sup>2 * (\<Sum>u\<leftarrow>x. f u * f u) + A\<^sup>2 * (\<Sum>v\<leftarrow>y'. h v * h v))" .
    have "2 * (A * B)\<^sup>2 * (\<Sum>(u, v)\<leftarrow>zip (u # x) y. f' u * h' v)
        = 2 * (A * B)\<^sup>2 * (f' u * h' v) + 2 * (A * B)\<^sup>2 * (\<Sum>(u, v)\<leftarrow>zip x y'. f' u * h' v)"
      by (simp add: Cons distrib_left)
    also from st ih have "\<dots> \<le> K * L * (B\<^sup>2 * (f u * f u) + A\<^sup>2 * (h v * h v))
        + K * L * (B\<^sup>2 * (\<Sum>u\<leftarrow>x. f u * f u) + A\<^sup>2 * (\<Sum>v\<leftarrow>y'. h v * h v))"
      by (rule add_mono)
    also have "\<dots> = K * L * (B\<^sup>2 * (\<Sum>u\<leftarrow>u # x. f u * f u) + A\<^sup>2 * (\<Sum>v\<leftarrow>y. h v * h v))"
      by (simp add: Cons algebra_simps)
    finally show ?thesis .
  qed
qed

lemma length_l2_normalize: "length (l2_normalize x) = length x"
  by (simp add: l2_normalize_def Let_def)

lemma normal_l2_normalize:
  assumes "\<forall>v\<in>set x. normal v"
  shows "\<forall>v\<in>set (l2_normalize x). normal v"
  using l2_normalize_spec [OF assms] by auto

lemma zero_l2_normalize:
  assumes "\<forall>v\<in>set x. normal v \<and> valof v = 0"
  shows "\<forall>v\<in>set (l2_normalize x). normal v \<and> valof v = 0"
proof -
  from assms have "\<forall>v\<in>set x. normal v"
    by simp
  from l2_normalize_spec [OF this] assms show ?thesis
    by auto
qed

lemma sum_list_zero_terms: "\<forall>e\<in>set l. f e = (0::real) \<Longrightarrow> (\<Sum>e\<leftarrow>l. f e) = 0"
  by (induction l) simp_all

lemma normalized_rows_dot:
  assumes nx: "\<forall>v\<in>set x. normal v" and ny: "\<forall>v\<in>set y. normal v"
  shows "(\<Sum>(a, b)\<leftarrow>zip (l2_normalize x) (l2_normalize y). valof a * valof b)
     \<le> rnd ^ (length x + 3) * rnd ^ (length y + 3)"
proof -
  let ?sx = "\<Sum>v\<leftarrow>x. valof v * valof v" and ?sy = "\<Sum>v\<leftarrow>y. valof v * valof v"
  let ?K = "rnd ^ (length x + 3)" and ?L = "rnd ^ (length y + 3)"
  from l2_normalize_spec [OF nx] obtain gx where lx: "l2_normalize x = map gx x"
    and gx: "\<forall>v\<in>set x. normal (gx v) \<and> valof (gx v) * sqrt ?sx \<le> ?K * valof v
        \<and> (valof v = 0 \<longrightarrow> valof (gx v) = 0)"
    by blast
  from l2_normalize_spec [OF ny] obtain gy where ly: "l2_normalize y = map gy y"
    and gy: "\<forall>v\<in>set y. normal (gy v) \<and> valof (gy v) * sqrt ?sy \<le> ?L * valof v
        \<and> (valof v = 0 \<longrightarrow> valof (gy v) = 0)"
    by blast
  let ?sum = "\<Sum>(u, v)\<leftarrow>zip x y. valof (gx u) * valof (gy v)"
  have eq: "(\<Sum>(a, b)\<leftarrow>zip (l2_normalize x) (l2_normalize y). valof a * valof b) = ?sum"
    by (simp add: lx ly zip_map_map split_def o_def)
  have K: "0 \<le> ?K" and L: "0 \<le> ?L"
    using rnd_pos by simp_all
  have "?sum \<le> ?K * ?L"
  proof (cases "?sx = 0 \<or> ?sy = 0")
    case True
    have "\<forall>e\<in>set (zip x y). (case e of (u, v) \<Rightarrow> valof (gx u) * valof (gy v)) = 0"
    proof
      fix e assume e: "e \<in> set (zip x y)"
      obtain u v where uv: "e = (u, v)" by (cases e)
      with e have u: "u \<in> set x" and v: "v \<in> set y"
        by (auto dest: set_zip_leftD set_zip_rightD)
      from True show "(case e of (u, v) \<Rightarrow> valof (gx u) * valof (gy v)) = 0"
      proof
        assume "?sx = 0"
        then have "valof u = 0"
          using u by (rule sum_squares_zero)
        with gx u show ?thesis
          by (simp add: uv)
      next
        assume "?sy = 0"
        then have "valof v = 0"
          using v by (rule sum_squares_zero)
        with gy v show ?thesis
          by (simp add: uv)
      qed
    qed
    then have "?sum = 0"
      by (rule sum_list_zero_terms)
    with K L show ?thesis
      by simp
  next
    case False
    with sum_squares_nonneg [of x] sum_squares_nonneg [of y] have pos: "0 < ?sx" "0 < ?sy"
      by simp_all
    define A where "A = sqrt ?sx"
    define B where "B = sqrt ?sy"
    from pos have A: "0 < A" and B: "0 < B"
      by (simp_all add: A_def B_def)
    from pos have A2: "A\<^sup>2 = ?sx" and B2: "B\<^sup>2 = ?sy"
      by (simp_all add: A_def B_def)
    have hx: "\<forall>u\<in>set x. 0 \<le> valof (gx u) \<and> 0 \<le> valof u \<and> valof (gx u) * A \<le> ?K * valof u"
      using gx nx by (simp add: A_def valof_nonneg)
    have hy: "\<forall>v\<in>set y. 0 \<le> valof (gy v) \<and> 0 \<le> valof v \<and> valof (gy v) * B \<le> ?L * valof v"
      using gy ny by (simp add: B_def valof_nonneg)
    from normalized_dot_bound [OF A B K L hx hy]
    have "2 * (A * B)\<^sup>2 * ?sum \<le> ?K * ?L * (B\<^sup>2 * ?sx + A\<^sup>2 * ?sy)" .
    also have "\<dots> = 2 * (A * B)\<^sup>2 * (?K * ?L)"
      unfolding A2 [symmetric] B2 [symmetric] by (simp add: power_mult_distrib)
    finally have "2 * (A * B)\<^sup>2 * ?sum \<le> 2 * (A * B)\<^sup>2 * (?K * ?L)" .
    moreover from A B have "0 < 2 * (A * B)\<^sup>2"
      by simp
    ultimately show ?thesis
      by (simp only: mult_le_cancel_left_pos)
  qed
  with eq show ?thesis
    by simp
qed

text \<open>
  The kernel: the score of two rows of \<open>n\<close> counts is not negative and at most
  \<open>rnd ^ (4 * n + 6)\<close>; a row of zeros has the score 0.
\<close>

lemma length_tfidf_row: "length (tfidf_row counts) = length counts"
  by (simp add: tfidf_row_def)

lemma normal_rows:
  "\<forall>v\<in>set (l2_normalize (tfidf_row counts)). normal v"
  "\<forall>v\<in>set (l2_normalize (l2_normalize (tfidf_row counts))). normal v"
proof -
  show 1: "\<forall>v\<in>set (l2_normalize (tfidf_row counts)). normal v"
    by (rule normal_l2_normalize) (rule normal_tfidf_row)
  then show "\<forall>v\<in>set (l2_normalize (l2_normalize (tfidf_row counts))). normal v"
    by (rule normal_l2_normalize)
qed

lemma normal_pairs:
  assumes "\<forall>a\<in>set x. normal a" "\<forall>b\<in>set y. normal b"
  shows "\<forall>(a, b)\<in>set (zip x y). normal a \<and> normal b"
  using assms by (auto dest: set_zip_leftD set_zip_rightD)

lemma cosine_similarity_f64_bounds:
  assumes "length job_counts = n" "length resume_counts = n"
  shows "0 \<le> cosine_similarity_f64 job_counts resume_counts
     \<and> cosine_similarity_f64 job_counts resume_counts \<le> rnd ^ (4 * n + 6)"
proof -
  let ?x1 = "l2_normalize (tfidf_row job_counts)"
  let ?y1 = "l2_normalize (tfidf_row resume_counts)"
  let ?x2 = "l2_normalize ?x1" and ?y2 = "l2_normalize ?y1"
  let ?sum = "\<Sum>(a, b)\<leftarrow>zip ?x2 ?y2. valof a * valof b"
  have len: "length ?x1 = n" "length ?y1 = n" "length (zip ?x2 ?y2) = n"
    using assms by (simp_all add: length_l2_normalize length_tfidf_row)
  have n0: "normal (0, 0)"
    by (rule normal_zero)
  from dot_upper [OF normal_pairs [OF normal_rows(2) normal_rows(2)] n0, of job_counts resume_counts]
  have nd: "normal (fdot ?x2 ?y2)"
    and up: "valof (fdot ?x2 ?y2) \<le> rnd ^ (2 * n) * ?sum"
    using assms
    by (simp_all add: fdot_def fzero_def length_l2_normalize length_tfidf_row valof_zero)
  from normalized_rows_dot [OF normal_rows(1) normal_rows(1), of job_counts resume_counts]
  have "?sum \<le> rnd ^ (n + 3) * rnd ^ (n + 3)"
    by (simp only: len)
  then have "rnd ^ (2 * n) * ?sum \<le> rnd ^ (2 * n) * (rnd ^ (n + 3) * rnd ^ (n + 3))"
    using rnd_pos by (simp only: mult_le_cancel_left_pos zero_less_power)
  also have "\<dots> = rnd ^ (4 * n + 6)"
    by (simp add: power_add [symmetric])
  finally have "valof (fdot ?x2 ?y2) \<le> rnd ^ (4 * n + 6)"
    using up by simp
  with valof_nonneg [OF nd] show ?thesis
    by (simp add: cosine_similarity_f64_def)
qed

lemma zero_tfidf_row:
  assumes "\<forall>c\<in>set counts. c = 0"
  shows "\<forall>v\<in>set (tfidf_row counts). normal v \<and> valof v = 0"
  using assms
  by (auto simp: tfidf_row_def of_count_zero fmul_zero_left normal_zero valof_zero)

lemma cosine_similarity_f64_zero_row:
  assumes "\<forall>c\<in>set resume_counts. c = 0"
  shows "cosine_similarity_f64 job_counts resume_counts = 0"
proof -
  let ?x2 = "l2_normalize (l2_normalize (tfidf_row job_counts))"
  let ?y2 = "l2_normalize (l2_normalize (tfidf_row resume_counts))"
  let ?sum = "\<Sum>(a, b)\<leftarrow>zip ?x2 ?y2. valof a * valof b"
  from zero_l2_normalize [OF zero_l2_normalize [OF zero_tfidf_row [OF assms]]]
  have zy: "\<forall>v\<in>set ?y2. normal v \<and> valof v = 0" .
  have "\<forall>e\<in>set (zip ?x2 ?y2). (case e of (a, b) \<Rightarrow> valof a * valof b) = 0"
    using zy by (auto dest: set_zip_rightD)
  then have s0: "?sum = 0"
    by (rule sum_list_zero_terms)
  from zy have ny: "\<forall>v\<in>set ?y2. normal v"
    by simp
  from dot_upper [OF normal_pairs [OF normal_rows(2) ny] normal_zero, of job_counts]
  have nd: "normal (fdot ?x2 ?y2)"
    and up: "valof (fdot ?x2 ?y2) \<le> rnd ^ (2 * length (zip ?x2 ?y2)) * ?sum"
    by (simp_all add: fdot_def fzero_def valof_zero)
  from up have "valof (fdot ?x2 ?y2) \<le> 0"
    by (simp only: s0 mult_zero_right)
  with valof_nonneg [OF nd] show ?thesis
    by (simp add: cosine_similarity_f64_def)
qed

text \<open>The ranker pairs every resume with the kernel's score of its row of counts.\<close>

lemma zip_map_self: "zip xs (map f xs) = map (\<lambda>x. (x, f x)) xs"
  by (induction xs) simp_all

lemma transform_disjoint:
  assumes "set (build_analyzer doc) \<inter> set (vocabulary v) = {}"
  shows "\<forall>c\<in>set (transform v doc). c = 0"
proof -
  have "count_list (build_analyzer doc) t = 0" if "t \<in> set (vocabulary v)" for t
    using that assms by (auto simp: count_list_0_iff)
  then show ?thesis
    by (auto simp: transform_def)
qed

text \<open>The job description \<open>ml excel\<close> and the resume text \<open>excel ml\<close>, evaluated.\<close>

lemma fit_transform_ml_excel:
  "fit_transform ''ml excel'' = Inr (\<lparr>vocabulary = [''excel'', ''ml'']\<rparr>, [1, 1])"
  by code_simp

lemma transform_excel_ml:
  "transform \<lparr>vocabulary = [''excel'', ''ml'']\<rparr> ''excel ml'' = [1, 1]"
  by code_simp

lemma cosine_similarity_f64_ones: "cosine_similarity_f64 [1, 1] [1, 1] = 1 + 1 / 2 ^ 52"
proof -
  have k: "fdot (l2_normalize (l2_normalize (tfidf_row [1, 1])))
      (l2_normalize (l2_normalize (tfidf_row [1, 1]))) = (4503599627370497, - 52)"
    by code_simp
  have v: "valof (4503599627370497, - 52) = 1 + 1 / 2 ^ 52"
    by (simp add: valof_def field_simps)
  show ?thesis
    by (simp only: cosine_similarity_f64_def k v)
qed

text \<open>
  Claim C5 bounds every score by 1. The score is a float64: on the job description
  \<open>ml excel\<close> and the resume text \<open>excel ml\<close> both rows of counts are \<open>[1, 1]\<close>, each
  normalised entry is the float64 nearest to \<open>1 / sqrt 2\<close>, which lies above it, and the
  sum of the two products is \<open>1 + 2 ^ -52\<close>, printed \<open>1.0000000000000002\<close>: a score
  above 1.
\<close>

theorem rank_resumes_score_above_one:
  "rank_resumes cosine_similarity_f64 example_parser [resume_C] ''ml excel''
     = (Inr [(resume_C, 1 + 1 / 2 ^ 52)], 1)
   \<and> \<not> (1 + 1 / 2 ^ 52 \<le> (1 :: real))"
proof -
  have "rank_resumes cosine_similarity_f64 example_parser [resume_C] ''ml excel''
      = (Inr [(resume_C, cosine_similarity_f64 [1, 1] [1, 1])], 1)"
    unfolding rank_resumes_def fit_transform_ml_excel
    by (simp add: transform_excel_ml resume_C_def sorted_reverse_def del: One_nat_def)
  then have "rank_resumes cosine_similarity_f64 example_parser [resume_C] ''ml excel''
      = (Inr [(resume_C, 1 + 1 / 2 ^ 52)], 1)"
    by (simp only: cosine_similarity_f64_ones)
  then show ?thesis
    by simp
qed

text \<open>
  Claim C5, amended. Whenever \<open>rank_resumes\<close> returns a ranking, with the scores computed
  in float64 as the library computes them, every resume of the input is paired with the
  score of its row of counts, and every score is at least 0 and at most
  \<open>(1 + 2 ^ -52) ^ (4 * n + 6)\<close>, where \<open>n\<close> is the number of terms of the vocabulary (the
  distinct tokens of the job description): it exceeds 1 by the roundings of the
  computation at most. The score of a resume whose text shares no token with the job
  description is exactly 0.
\<close>

theorem rank_resumes_scores_bounded:
  assumes "rank_resumes cosine_similarity_f64 self resumes job_description = (Inr ranked, k)"
  shows "\<exists>v job_vec. fit_transform job_description = Inr (v, job_vec)
     \<and> mset (map fst ranked) = mset resumes
     \<and> (\<forall>(resume, score)\<in>set ranked.
          score = cosine_similarity_f64 job_vec (transform v (raw_text resume))
          \<and> 0 \<le> score
          \<and> score \<le> (1 + 1 / 2 ^ 52) ^ (4 * length (vocabulary v) + 6)
          \<and> (set (build_analyzer (raw_text resume)) \<inter> set (build_analyzer job_description) = {}
               \<longrightarrow> score = 0))"
proof -
  let ?tokens = "build_analyzer job_description"
  let ?v = "\<lparr>vocabulary = sort (remdups ?tokens)\<rparr>"
  let ?job_vec = "map (count_list ?tokens) (sort (remdups ?tokens))"
  let ?f = "\<lambda>r. cosine_similarity_f64 ?job_vec (transform ?v (raw_text r))"
  have tok: "?tokens \<noteq> []"
  proof
    assume "?tokens = []"
    then have "rank_resumes cosine_similarity_f64 self resumes job_description =
        (Inl (ValueError ''empty vocabulary; perhaps the documents only contain stop words''), 0)"
      by (rule rank_resumes_tokenless)
    with assms show False
      by simp
  qed
  then have fit: "fit_transform job_description = Inr (?v, ?job_vec)"
    by (rule fit_transform_accepts)
  with assms have ranked: "ranked = sorted_reverse snd (map (\<lambda>r. (r, ?f r)) resumes)"
    by (simp add: rank_resumes_def score_loop_eq zip_map_self)
  have perm: "mset (map fst ranked) = mset resumes"
  proof -
    have "mset (map fst ranked) = image_mset fst (mset (map (\<lambda>r. (r, ?f r)) resumes))"
      unfolding ranked by (simp only: mset_map mset_sorted_reverse)
    also have "\<dots> = mset resumes"
      by (simp add: image_mset.compositionality o_def)
    finally show ?thesis .
  qed
  have each: "score = ?f resume \<and> 0 \<le> score
        \<and> score \<le> (1 + 1 / 2 ^ 52) ^ (4 * length (vocabulary ?v) + 6)
        \<and> (set (build_analyzer (raw_text resume)) \<inter> set ?tokens = {} \<longrightarrow> score = 0)"
    if "(resume, score) \<in> set ranked" for resume score
  proof -
    from that have "(resume, score) \<in> set (map (\<lambda>r. (r, ?f r)) resumes)"
      by (simp add: ranked sorted_reverse_def)
    then have s: "score = ?f resume"
      by auto
    have "length ?job_vec = length (vocabulary ?v)"
      and "length (transform ?v (raw_text resume)) = length (vocabulary ?v)"
      by (simp_all add: transform_def)
    from cosine_similarity_f64_bounds [OF this]
    have "0 \<le> ?f resume" and "?f resume \<le> (1 + 1 / 2 ^ 52) ^ (4 * length (vocabulary ?v) + 6)"
      by (simp_all add: rnd_def)
    moreover have "?f resume = 0"
      if "set (build_analyzer (raw_text resume)) \<inter> set ?tokens = {}"
    proof -
      from that have "set (build_analyzer (raw_text resume)) \<inter> set (vocabulary ?v) = {}"
        by simp
      then have "\<forall>c\<in>set (transform ?v (raw_text resume)). c = 0"
        by (rule transform_disjoint)
      then show ?thesis
        by (rule cosine_similarity_f64_zero_row)
    qed
    ultimately show ?thesis
      using s by simp
  qed
  from fit perm each show ?thesis
    by blast
qed

theorem rank_resumes_scores_bounded_witness:
  "rank_resumes cosine_similarity_f64 example_parser [resume_A, resume_C] ''ml excel''
     = (Inr [(resume_C, 1 + 1 / 2 ^ 52), (resume_A, 0)], 2)
   \<and> (resume_A, 0) \<in> set [(resume_C, 1 + 1 / 2 ^ 52), (resume_A, 0 :: real)]
   \<and> set (build_analyzer (raw_text resume_A)) \<inter> set (build_analyzer ''ml excel'') = {}
   \<and> cosine_similarity_f64 [1, 1] (transform \<lparr>vocabulary = [''excel'', ''ml'']\<rparr> (raw_text resume_A)) = 0
   \<and> (1 + 1 / 2 ^ 52 :: real) \<le> (1 + 1 / 2 ^ 52) ^ (4 * 2 + 6)"
proof -
  let ?v = "\<lparr>vocabulary = [''excel'', ''ml'']\<rparr>"
  have trA: "transform ?v ''Python SQL Machine Learning'' = [0, 0]"
    by code_simp
  have csA: "cosine_similarity_f64 [1, 1] [0, 0] = 0"
    by (rule cosine_similarity_f64_zero_row) simp
  have tA: "build_analyzer ''Python SQL Machine Learning'' = [''python'', ''sql'', ''machine'', ''learning'']"
    by code_simp
  have tJ: "build_analyzer ''ml excel'' = [''ml'', ''excel'']"
    by code_simp
  have dis: "set (build_analyzer (raw_text resume_A)) \<inter> set (build_analyzer ''ml excel'') = {}"
    by (simp add: resume_A_def tA tJ)
  have "rank_resumes cosine_similarity_f64 example_parser [resume_A, resume_C] ''ml excel''
      = (Inr (sorted_reverse snd [(resume_A, cosine_similarity_f64 [1, 1] [0, 0]),
           (resume_C, cosine_similarity_f64 [1, 1] [1, 1])]), 2)"
    unfolding rank_resumes_def fit_transform_ml_excel
    by (simp add: trA transform_excel_ml resume_A_def resume_C_def del: One_nat_def)
  moreover have "sorted_reverse snd [(resume_A, 0 :: real), (resume_C, 1 + 1 / 2 ^ 52)]
      = [(resume_C, 1 + 1 / 2 ^ 52), (resume_A, 0)]"
    by (simp add: sorted_reverse_def)
  ultimately have run: "rank_resumes cosine_similarity_f64 example_parser [resume_A, resume_C] ''ml excel''
      = (Inr [(resume_C, 1 + 1 / 2 ^ 52), (resume_A, 0)], 2)"
    by (simp only: csA cosine_similarity_f64_ones)
  from rank_resumes_scores_bounded [OF run] fit_transform_ml_excel
  have all: "\<forall>(resume, score)\<in>set [(resume_C, 1 + 1 / 2 ^ 52), (resume_A, 0 :: real)].
          score = cosine_similarity_f64 [1, 1] (transform ?v (raw_text resume))
          \<and> 0 \<le> score
          \<and> score \<le> (1 + 1 / 2 ^ 52) ^ (4 * length (vocabulary ?v) + 6)
          \<and> (set (build_analyzer (raw_text resume)) \<inter> set (build_analyzer ''ml excel'') = {}
               \<longrightarrow> score = 0)"
    by auto
  then have "(1 + 1 / 2 ^ 52 :: real) \<le> (1 + 1 / 2 ^ 52) ^ (4 * 2 + 6)"
    and "cosine_similarity_f64 [1, 1] (transform ?v (raw_text resume_A)) = 0"
    by simp_all
  with run dis show ?thesis
    by simp
qed

end
